theory Spec2Isabelle
  imports Main "HOL-Library.Char_ord" "HOL-Library.List_Lexorder"
begin

section \<open>Strings and paths: the library functions the file tree calls\<close>

text \<open>
  Go strings are byte sequences; \<^typ>\<open>string\<close> is a list of 8-bit characters.
  The file tree (kythe/go/services/filetree/filetree.go) normalises paths with
  \<^verbatim>\<open>filepath.Join("/", p)\<close> and walks upwards with \<^verbatim>\<open>filepath.Dir\<close>.  Both
  are functions of Go's standard library (package path/filepath, Unix build:
  the separator is the slash and there is no volume name); they are
  transcribed here from the library's loops.
\<close>

definition Separator :: char where
  "Separator = CHR ''/''"

definition IsPathSeparator :: "char \<Rightarrow> bool" where
  "IsPathSeparator c = (c = Separator)"

text \<open>
  The inner loop of the dot-dot case of \<^verbatim>\<open>Clean\<close>, entered after the first
  \<^verbatim>\<open>out.w--\<close>:
  \<^verbatim>\<open>for out.w > dotdot && !os.IsPathSeparator(out.index(out.w)) { out.w-- }\<close>
\<close>

fun backtrack :: "nat \<Rightarrow> string \<Rightarrow> nat \<Rightarrow> nat" where
  "backtrack dotdot buf w =
     (if dotdot < w \<and> \<not> IsPathSeparator (buf ! w) then backtrack dotdot buf (w - 1) else w)"

declare backtrack.simps [simp del]

text \<open>
  The main loop of \<^verbatim>\<open>Clean\<close>.  The argument \<open>rest\<close> is \<^verbatim>\<open>path[r:]\<close>, the
  part of the input still to read; \<open>out\<close> is \<^verbatim>\<open>buf[:w]\<close>, the bytes written
  so far (Go's lazybuf only delays the allocation of that buffer); \<open>dotdot\<close>
  is the index in the buffer where a dot-dot element must stop.  The four
  branches are the four cases of the library's \<^verbatim>\<open>switch\<close>, in its order.
\<close>

function clean_loop :: "bool \<Rightarrow> string \<Rightarrow> string \<Rightarrow> nat \<Rightarrow> string" where
  "clean_loop rooted [] out dotdot = out"
| "clean_loop rooted (c # cs) out dotdot =
     (if IsPathSeparator c then
        clean_loop rooted cs out dotdot
      else if c = CHR ''.'' \<and> (cs = [] \<or> IsPathSeparator (hd cs)) then
        clean_loop rooted cs out dotdot
      else if c = CHR ''.'' \<and> hd cs = CHR ''.'' \<and> (tl cs = [] \<or> IsPathSeparator (hd (tl cs))) then
        (if dotdot < length out then
           clean_loop rooted (tl cs) (take (backtrack dotdot out (length out - 1)) out) dotdot
         else if \<not> rooted then
           clean_loop rooted (tl cs)
             ((if 0 < length out then out @ [Separator] else out) @ ''..'')
             (length ((if 0 < length out then out @ [Separator] else out) @ ''..''))
         else
           clean_loop rooted (tl cs) out dotdot)
      else
        clean_loop rooted (dropWhile (\<lambda>x. \<not> IsPathSeparator x) cs)
          ((if rooted \<and> length out \<noteq> 1 \<or> \<not> rooted \<and> length out \<noteq> 0
            then out @ [Separator] else out)
           @ c # takeWhile (\<lambda>x. \<not> IsPathSeparator x) cs)
          dotdot)"
  by pat_completeness auto
termination
  by (relation "measure (\<lambda>(rooted, rest, out, dotdot). length rest)")
     (auto simp: length_dropWhile_le less_Suc_eq_le)

declare clean_loop.simps(2) [simp del]

text \<open>
  \<^verbatim>\<open>filepath.Clean\<close>: the empty path becomes a single dot; a rooted path starts
  the buffer with the separator and \<^verbatim>\<open>r, dotdot = 1, 1\<close>; an empty result
  becomes a single dot.
\<close>

definition filepath_Clean :: "string \<Rightarrow> string" where
  "filepath_Clean path =
     (if path = [] then ''.''
      else
        (let rooted = IsPathSeparator (hd path);
             out = (if rooted then clean_loop rooted (tl path) [Separator] 1
                    else clean_loop rooted path [] 0)
         in if length out = 0 then ''.'' else out))"

text \<open>\<^verbatim>\<open>strings.Join(elems, sep)\<close>.\<close>

fun strings_Join :: "string list \<Rightarrow> string \<Rightarrow> string" where
  "strings_Join [] sep = []"
| "strings_Join [e] sep = e"
| "strings_Join (e # es) sep = e @ sep @ strings_Join es sep"

text \<open>
  \<^verbatim>\<open>filepath.Join\<close>: the elements from the first non-empty one on are joined
  with the separator and cleaned; with no non-empty element the result is empty.
\<close>

fun filepath_Join :: "string list \<Rightarrow> string" where
  "filepath_Join [] = []"
| "filepath_Join (e # es) =
     (if e \<noteq> [] then filepath_Clean (strings_Join (e # es) [Separator])
      else filepath_Join es)"

text \<open>
  \<^verbatim>\<open>filepath.Dir\<close>: \<^verbatim>\<open>i := len(path) - 1; for i >= 0 && !IsPathSeparator(path[i]) { i-- }\<close>
  and then \<^verbatim>\<open>Clean(path[:i+1])\<close>.  The function below returns \<^verbatim>\<open>i+1\<close>,
  counting down from \<^verbatim>\<open>len(path)\<close>.
\<close>

primrec lastSeparatorEnd :: "string \<Rightarrow> nat \<Rightarrow> nat" where
  "lastSeparatorEnd path 0 = 0"
| "lastSeparatorEnd path (Suc i) =
     (if \<not> IsPathSeparator (path ! i) then lastSeparatorEnd path i else Suc i)"

definition filepath_Dir :: "string \<Rightarrow> string" where
  "filepath_Dir path = filepath_Clean (take (lastSeparatorEnd path (length path)) path)"


section \<open>Facts about the path functions\<close>

text \<open>
  Two facts about \<^verbatim>\<open>Clean\<close> carry everything that follows: its result is
  never longer than its input and loses a trailing separator, and a rooted
  input gives a rooted result.  The first needs an accounting of the loop:
  \<open>trailing\<close> is the separator at the end of the input that will be read and
  not written, \<open>credit\<close> the separator that the next element will put in
  front of itself.
\<close>

lemma backtrack_le: "backtrack d buf w \<le> w"
  by (induction d buf w rule: backtrack.induct) (subst backtrack.simps, auto)

lemma backtrack_ge: "d \<le> w \<Longrightarrow> d \<le> backtrack d buf w"
  by (induction d buf w rule: backtrack.induct) (subst backtrack.simps, auto)

definition trailing :: "string \<Rightarrow> nat" where
  "trailing rest = (if rest \<noteq> [] \<and> IsPathSeparator (last rest) then 1 else 0)"

definition credit :: "bool \<Rightarrow> string \<Rightarrow> string \<Rightarrow> nat" where
  "credit rooted rest out =
     (if rest \<noteq> [] \<and> \<not> IsPathSeparator (hd rest)
         \<and> (rooted \<and> length out \<noteq> 1 \<or> \<not> rooted \<and> length out \<noteq> 0) then 1 else 0)"

lemma trailing_dropWhile0:
  "trailing (dropWhile (\<lambda>x. \<not> IsPathSeparator x) cs) = trailing cs"
proof (induction cs)
  case Nil
  show ?case by simp
next
  case (Cons a cs)
  show ?case
  proof (cases "IsPathSeparator a")
    case True
    then show ?thesis by simp
  next
    case False
    have "trailing (a # cs) = trailing cs"
      using False by (cases "cs = []") (simp_all add: trailing_def)
    then show ?thesis using False Cons by simp
  qed
qed

lemma credit_dropWhile: "credit rooted (dropWhile (\<lambda>x. \<not> IsPathSeparator x) cs) out = 0"
proof (cases "dropWhile (\<lambda>x. \<not> IsPathSeparator x) cs = []")
  case True
  then show ?thesis unfolding credit_def by simp
next
  case False
  from hd_dropWhile [OF this] show ?thesis unfolding credit_def by simp
qed

lemma trailing_dropWhile:
  "\<not> IsPathSeparator c \<Longrightarrow>
   trailing (c # cs) = trailing (dropWhile (\<lambda>x. \<not> IsPathSeparator x) cs)"
  unfolding trailing_dropWhile0 by (simp add: trailing_def)

lemma clean_loop_length:
  "length (clean_loop rooted rest out dd) + trailing rest
     \<le> length out + length rest + credit rooted rest out"
proof (induction rooted rest out dd rule: clean_loop.induct)
  case (1 rooted out dotdot)
  then show ?case by (simp add: trailing_def)
next
  case (2 rooted c cs out dotdot)
  show ?case
  proof (cases "IsPathSeparator c")
    case True
    have "length (clean_loop rooted cs out dotdot) + trailing cs
            \<le> length out + length cs + credit rooted cs out"
      using 2(1) True by simp
    moreover have "credit rooted cs out \<le> 1" by (simp add: credit_def)
    moreover have "trailing (c # cs) \<le> trailing cs + 1" by (simp add: trailing_def)
    moreover have "cs = [] \<Longrightarrow> trailing (c # cs) = 1 \<and> credit rooted cs out = 0"
      using True by (simp add: trailing_def credit_def)
    moreover have "cs \<noteq> [] \<Longrightarrow> trailing (c # cs) = trailing cs"
      by (simp add: trailing_def)
    ultimately show ?thesis
      using True by (cases "cs = []") (simp_all add: clean_loop.simps(2))
  next
    case nsep: False
    show ?thesis
    proof (cases "c = CHR ''.'' \<and> (cs = [] \<or> IsPathSeparator (hd cs))")
      case True
      have ih: "length (clean_loop rooted cs out dotdot) + trailing cs
            \<le> length out + length cs + credit rooted cs out"
        using 2(2) nsep True by simp
      have c0: "credit rooted cs out = 0" using True by (auto simp: credit_def)
      have "trailing (c # cs) = trailing cs"
        using nsep True by (cases "cs = []") (auto simp: trailing_def)
      then show ?thesis using ih c0 nsep True by (simp add: clean_loop.simps(2))
    next
      case ndot: False
      show ?thesis
      proof (cases "c = CHR ''.'' \<and> hd cs = CHR ''.'' \<and> (tl cs = [] \<or> IsPathSeparator (hd (tl cs)))")
        case True
        then have csne: "cs \<noteq> []" using ndot by auto
        have c0: "\<And>o'. credit rooted (tl cs) o' = 0" using True by (auto simp: credit_def)
        have tr: "trailing (c # cs) = trailing (tl cs)"
        proof (cases "tl cs = []")
          case True
          then have "cs = [hd cs]" using csne by (cases cs) auto
          then have "c # cs = [c, CHR ''.'']" using \<open>c = CHR ''.'' \<and> hd cs = CHR ''.'' \<and> _\<close> by simp
          then show ?thesis using True by (simp add: trailing_def IsPathSeparator_def Separator_def)
        next
          case False
          then show ?thesis using csne by (cases cs) (auto simp: trailing_def)
        qed
        have len: "length (c # cs) = length (tl cs) + 2" using csne by (cases cs) auto
        show ?thesis
        proof (cases "dotdot < length out")
          case bt: True
          let ?o = "take (backtrack dotdot out (length out - 1)) out"
          have "length (clean_loop rooted (tl cs) ?o dotdot) + trailing (tl cs)
                  \<le> length ?o + length (tl cs) + credit rooted (tl cs) ?o"
            using 2(3) nsep ndot True bt by simp
          moreover have "length ?o \<le> length out" by simp
          ultimately show ?thesis
            using nsep ndot True bt c0 tr len by (simp add: clean_loop.simps(2))
        next
          case nbt: False
          show ?thesis
          proof (cases rooted)
            case r: True
            have "length (clean_loop rooted (tl cs) out dotdot) + trailing (tl cs)
                  \<le> length out + length (tl cs) + credit rooted (tl cs) out"
              using 2(5) nsep ndot True nbt r by simp
            then show ?thesis
              using nsep ndot True nbt r c0 tr len by (simp add: clean_loop.simps(2))
          next
            case nr: False
            let ?o = "(if 0 < length out then out @ [Separator] else out) @ ''..''"
            have ih: "length (clean_loop rooted (tl cs) ?o (length ?o)) + trailing (tl cs)
                  \<le> length ?o + length (tl cs) + credit rooted (tl cs) ?o"
              using 2(4) nsep ndot True nbt nr by simp
            have lo: "length ?o = length out + 2 + credit rooted (c # cs) out"
              using nr nsep by (simp add: credit_def)
            have eq: "clean_loop rooted (c # cs) out dotdot = clean_loop rooted (tl cs) ?o (length ?o)"
              using nsep ndot True nbt nr by (simp add: clean_loop.simps(2))
            show ?thesis
              unfolding eq using ih lo c0 [of ?o] tr len by linarith
          qed
        qed
      next
        case elem: False
        let ?o = "(if rooted \<and> length out \<noteq> 1 \<or> \<not> rooted \<and> length out \<noteq> 0
            then out @ [Separator] else out) @ c # takeWhile (\<lambda>x. \<not> IsPathSeparator x) cs"
        let ?r = "dropWhile (\<lambda>x. \<not> IsPathSeparator x) cs"
        have ih: "length (clean_loop rooted ?r ?o dotdot) + trailing ?r
                  \<le> length ?o + length ?r + credit rooted ?r ?o"
          using 2(6) nsep ndot elem by simp
        have c0: "credit rooted ?r ?o = 0"
          by (rule credit_dropWhile)
        have tr: "trailing (c # cs) = trailing ?r" using nsep by (rule trailing_dropWhile)
        have "length (takeWhile (\<lambda>x. \<not> IsPathSeparator x) cs) + length ?r = length cs"
          by (metis length_append takeWhile_dropWhile_id)
        then have "length ?o + length ?r = length out + length (c # cs) + credit rooted (c # cs) out"
          using nsep by (auto simp: credit_def)
        moreover have eq: "clean_loop rooted (c # cs) out dotdot = clean_loop rooted ?r ?o dotdot"
          using nsep ndot elem by (subst clean_loop.simps(2)) (simp only: if_False)
        ultimately show ?thesis
          unfolding eq using ih c0 tr by linarith
      qed
    qed
  qed
qed


lemma clean_loop_rooted:
  "rooted \<Longrightarrow> out \<noteq> [] \<Longrightarrow> hd out = Separator \<Longrightarrow> 1 \<le> dd \<Longrightarrow>
   clean_loop rooted rest out dd \<noteq> [] \<and> hd (clean_loop rooted rest out dd) = Separator"
proof (induction rooted rest out dd rule: clean_loop.induct)
  case (1 rooted out dotdot)
  then show ?case by simp
next
  case (2 rooted c cs out dotdot)
  let ?b = "take (backtrack dotdot out (length out - 1)) out"
  have b: "dotdot < length out \<Longrightarrow> ?b \<noteq> [] \<and> hd ?b = Separator"
  proof -
    assume "dotdot < length out"
    then have "dotdot \<le> length out - 1" by simp
    from backtrack_ge [OF this, of out] 2(10)
    have "1 \<le> backtrack dotdot out (length out - 1)" by simp
    then show ?thesis using 2(8,9) by (cases out) (auto simp: take_Suc_conv_app_nth hd_take)
  qed
  show ?case
    using 2 b by (simp add: clean_loop.simps(2) [of True c cs out dotdot] hd_append)
qed


lemma Clean_nonempty: "filepath_Clean path \<noteq> []"
  by (simp add: filepath_Clean_def Let_def)

lemma Clean_rooted:
  assumes "path \<noteq> []" "hd path = Separator"
  shows "hd (filepath_Clean path) = Separator"
proof -
  have "clean_loop True (tl path) [Separator] 1 \<noteq> []
        \<and> hd (clean_loop True (tl path) [Separator] 1) = Separator"
    by (rule clean_loop_rooted) simp_all
  then show ?thesis
    using assms by (simp add: filepath_Clean_def Let_def IsPathSeparator_def)
qed

lemma Clean_root: "filepath_Clean [Separator] = [Separator]"
  by (simp add: filepath_Clean_def IsPathSeparator_def)

lemma Clean_trailing_length:
  assumes "q \<noteq> []"
  shows "length (filepath_Clean (q @ [Separator])) \<le> length q"
proof (cases "IsPathSeparator (hd q)")
  case True
  let ?out = "clean_loop True (tl q @ [Separator]) [Separator] 1"
  have "length ?out + trailing (tl q @ [Separator])
          \<le> length [Separator] + length (tl q @ [Separator])
             + credit True (tl q @ [Separator]) [Separator]"
    by (rule clean_loop_length)
  moreover have "trailing (tl q @ [Separator]) = 1"
    by (simp add: trailing_def IsPathSeparator_def)
  moreover have "credit True (tl q @ [Separator]) [Separator] = 0"
    by (simp add: credit_def)
  ultimately have "length ?out \<le> length q" using assms by simp
  moreover have "1 \<le> length q" using assms by (cases q) auto
  ultimately show ?thesis
    using True assms by (simp add: filepath_Clean_def Let_def)
next
  case False
  let ?out = "clean_loop False (q @ [Separator]) [] 0"
  have "length ?out + trailing (q @ [Separator])
          \<le> length ([]::string) + length (q @ [Separator])
             + credit False (q @ [Separator]) []"
    by (rule clean_loop_length)
  moreover have "trailing (q @ [Separator]) = 1"
    by (simp add: trailing_def IsPathSeparator_def)
  moreover have "credit False (q @ [Separator]) [] = 0"
    by (simp add: credit_def)
  ultimately have "length ?out \<le> length q" by simp
  moreover have "1 \<le> length q" using assms by (cases q) auto
  ultimately show ?thesis
    using False assms by (simp add: filepath_Clean_def Let_def)
qed

lemma lastSeparatorEnd_le: "lastSeparatorEnd path n \<le> n"
  by (induction n) auto

lemma lastSeparatorEnd_zero:
  "n \<le> length path \<Longrightarrow> (lastSeparatorEnd path n = 0) = (Separator \<notin> set (take n path))"
  by (induction n) (auto simp: take_Suc_conv_app_nth IsPathSeparator_def)

lemma lastSeparatorEnd_sep:
  "lastSeparatorEnd path n = Suc k \<Longrightarrow> path ! k = Separator"
  by (induction n) (auto simp: IsPathSeparator_def split: if_splits)

lemma Dir_no_separator: "Separator \<notin> set path \<Longrightarrow> filepath_Dir path = ''.''"
  using lastSeparatorEnd_zero [of "length path" path]
  by (simp add: filepath_Dir_def filepath_Clean_def)

lemma Dir_root: "filepath_Dir [Separator] = [Separator]"
  by (simp add: filepath_Dir_def IsPathSeparator_def Clean_root)

lemma Dir_shorter:
  assumes sep: "Separator \<in> set path" and nroot: "path \<noteq> [Separator]"
  shows "length (filepath_Dir path) < length path"
proof -
  obtain k where k: "lastSeparatorEnd path (length path) = Suc k"
    using sep lastSeparatorEnd_zero [of "length path" path] by (cases "lastSeparatorEnd path (length path)") auto
  have kl: "Suc k \<le> length path" using lastSeparatorEnd_le [of path "length path"] k by simp
  have pk: "path ! k = Separator" using k by (rule lastSeparatorEnd_sep)
  have tk: "take (Suc k) path = take k path @ [Separator]"
    using kl pk by (simp add: take_Suc_conv_app_nth)
  show ?thesis
  proof (cases "k = 0")
    case True
    then have "filepath_Dir path = [Separator]"
      using k tk by (simp add: filepath_Dir_def Clean_root)
    moreover have "length path \<noteq> 1"
    proof
      assume "length path = 1"
      then have "path = take (Suc 0) path" by simp
      then show False using tk True nroot by simp
    qed
    ultimately show ?thesis using kl by simp
  next
    case False
    then have "take k path \<noteq> []" using kl by auto
    from Clean_trailing_length [OF this]
    have "length (filepath_Dir path) \<le> k"
      using k tk kl by (simp add: filepath_Dir_def)
    then show ?thesis using kl by simp
  qed
qed

lemma Dir_rooted:
  assumes "path \<noteq> []" "hd path = Separator"
  shows "hd (filepath_Dir path) = Separator"
proof -
  have "Separator \<in> set path" using assms by (cases path) auto
  then obtain k where k: "lastSeparatorEnd path (length path) = Suc k"
    using lastSeparatorEnd_zero [of "length path" path] by (cases "lastSeparatorEnd path (length path)") auto
  have "take (Suc k) path \<noteq> []" "hd (take (Suc k) path) = Separator"
    using assms by (cases path; simp)+
  from Clean_rooted [OF this] show ?thesis using k by (simp add: filepath_Dir_def)
qed



section \<open>The file tree: data\<close>

text \<open>
  \<^verbatim>\<open>spb.VName\<close>, the structured name of a node (message VName of the storage
  protocol: signature, corpus, root, path, language).  The file tree reads
  the corpus, the root and the path.
\<close>

record VName =
  Signature :: string
  Corpus :: string
  Root :: string
  Path :: string
  Language :: string

text \<open>
  \<^verbatim>\<open>srvpb.FileDirectory\<close>: the tickets of the immediate subdirectories and of
  the files of one directory, each a slice used as a set.
\<close>

record FileDirectory =
  Subdirectory :: "string list"
  FileTicket :: "string list"

text \<open>
  \<^verbatim>\<open>type Map struct { M map[string]map[string]map[string]*srvpb.FileDirectory }\<close>,
  corpus to root to directory path to record.  A missing key reads as
  \<^verbatim>\<open>nil\<close> in Go and as \<open>None\<close> here.  Every record is created by
  \<^verbatim>\<open>ensureDir\<close> and stored under one key only, so a pointer to a record is
  the triple of keys that leads to it, and a write through the pointer is an
  update at that triple.
\<close>

record Map =
  M :: "string \<rightharpoonup> (string \<rightharpoonup> (string \<rightharpoonup> FileDirectory))"

text \<open>
  Package kytheuri (kythe/go/util/kytheuri) is imported by the file tree and
  defined elsewhere.  Its two renderings,
  \<^verbatim>\<open>kytheuri.ToString(vname)\<close> (the ticket of a file) and
  \<^verbatim>\<open>kytheuri.URI{Corpus, Root, Path}.String()\<close> (the ticket of a directory),
  are parameters of the model: every theorem holds for any pair of functions.
\<close>

record kytheuri =
  ToString :: "VName \<Rightarrow> string"
  String :: "string \<Rightarrow> string \<Rightarrow> string \<Rightarrow> string"

text \<open>\<^verbatim>\<open>NewMap\<close> returns an empty file tree.\<close>

definition NewMap :: Map where
  "NewMap = \<lparr>M = Map.empty\<rparr>"

text \<open>
  Reading and writing through the nested maps: \<open>dirsAt m corpus root\<close> is
  \<^verbatim>\<open>m.M[corpus][root]\<close> (indexing a nil map reads nil), \<open>storeDir\<close> is the
  assignment \<^verbatim>\<open>dirs[path] = dir\<close> on that inner map, and also the write of
  a field through the pointer stored there.
\<close>

definition rootsAt :: "Map \<Rightarrow> string \<Rightarrow> (string \<rightharpoonup> (string \<rightharpoonup> FileDirectory))" where
  "rootsAt m corpus = (case M m corpus of None \<Rightarrow> Map.empty | Some roots \<Rightarrow> roots)"

definition dirsAt :: "Map \<Rightarrow> string \<Rightarrow> string \<Rightarrow> (string \<rightharpoonup> FileDirectory)" where
  "dirsAt m corpus root = (case rootsAt m corpus root of None \<Rightarrow> Map.empty | Some dirs \<Rightarrow> dirs)"

definition storeDir :: "Map \<Rightarrow> string \<Rightarrow> string \<Rightarrow> string \<Rightarrow> FileDirectory \<Rightarrow> Map" where
  "storeDir m corpus root path dir =
     m\<lparr>M := (M m)(corpus \<mapsto> (rootsAt m corpus)(root \<mapsto> (dirsAt m corpus root)(path \<mapsto> dir)))\<rparr>"


section \<open>The file tree: operations\<close>

text \<open>
  \<^verbatim>\<open>addToSet\<close>: the loop returns the slice unchanged at the first element
  equal to \<open>str\<close>; otherwise \<open>str\<close> is appended.
\<close>

primrec addToSet_found :: "string list \<Rightarrow> string \<Rightarrow> bool" where
  "addToSet_found [] str = False"
| "addToSet_found (s # strs) str = (if s = str then True else addToSet_found strs str)"

definition addToSet :: "string list \<Rightarrow> string \<Rightarrow> string list" where
  "addToSet strs str = (if addToSet_found strs str then strs else strs @ [str])"

text \<open>
  \<^verbatim>\<open>ensureCorpusRoot\<close>: creates the map of roots of the corpus and the map of
  directories of the root when they are nil.  The result is the updated tree;
  the inner map that the Go function returns is \<open>dirsAt\<close> of it.
\<close>

definition ensureCorpusRoot :: "Map \<Rightarrow> string \<Rightarrow> string \<Rightarrow> Map" where
  "ensureCorpusRoot m corpus root =
     (let m1 = (case M m corpus of
                  None \<Rightarrow> m\<lparr>M := (M m)(corpus \<mapsto> Map.empty)\<rparr>
                | Some roots \<Rightarrow> m)
      in case rootsAt m1 corpus root of
           None \<Rightarrow> m1\<lparr>M := (M m1)(corpus \<mapsto> (rootsAt m1 corpus)(root \<mapsto> Map.empty))\<rparr>
         | Some dirs \<Rightarrow> m1)"

text \<open>
  \<^verbatim>\<open>Dir\<close>: the pair of the record (nil when there is none) and the error,
  which is nil on every path.  The path is used as the key as it is given.
\<close>

definition Dir :: "Map \<Rightarrow> string \<Rightarrow> string \<Rightarrow> string \<Rightarrow> FileDirectory option \<times> string option" where
  "Dir m corpus root path =
     (case M m corpus of
        None \<Rightarrow> (None, None)
      | Some roots \<Rightarrow>
          (case roots root of
             None \<Rightarrow> (None, None)
           | Some dirs \<Rightarrow> (dirs path, None)))"

text \<open>
  \<^verbatim>\<open>CorporaRoots\<close>.  A \<^verbatim>\<open>range\<close> over a Go map visits every key once, in
  an order that is chosen afresh for every loop.  The orders of one call are
  its first two arguments: \<open>corpusOrder\<close> is the order in which the outer
  loop visits the corpora, \<open>rootOrder corpus\<close> the order in which the inner
  loop run for that corpus visits its roots.  Another call is another choice
  of the two.  The result is the list of the corpora with the list of the
  roots of each, and the error, which is always nil.
\<close>

definition CorporaRoots ::
  "(string set \<Rightarrow> string list) \<Rightarrow> (string \<Rightarrow> string set \<Rightarrow> string list) \<Rightarrow> Map
     \<Rightarrow> (string \<times> string list) list \<times> string option" where
  "CorporaRoots corpusOrder rootOrder m =
     (foldl (\<lambda>cr corpus.
               cr @ [(corpus,
                      foldl (\<lambda>roots root. roots @ [root]) []
                        (rootOrder corpus (dom (rootsAt m corpus))))])
        [] (corpusOrder (dom (M m))),
      None)"

text \<open>
  The order of the path towards the root that the termination of
  \<^verbatim>\<open>ensureDir\<close> rests on: a path with a separator counts its length, a path
  without one is one step from the single dot.
\<close>

definition rank :: "string \<Rightarrow> nat" where
  "rank path =
     (if Separator \<in> set path then length path + 1
      else if path = ''.'' then 0 else 1)"

lemma rank_Dir: "path \<noteq> [Separator] \<Longrightarrow> filepath_Dir path \<noteq> path \<Longrightarrow> rank (filepath_Dir path) < rank path"
proof (cases "Separator \<in> set path")
  case True
  assume "path \<noteq> [Separator]"
  from Dir_shorter [OF True this] show ?thesis using True by (auto simp: rank_def)
next
  case False
  assume "filepath_Dir path \<noteq> path"
  then have "path \<noteq> ''.''" using Dir_no_separator [OF False] by auto
  moreover have "rank ''.'' = 0" by (simp add: rank_def Separator_def)
  ultimately show ?thesis using Dir_no_separator [OF False] False by (simp add: rank_def)
qed

lemma rootsAt_ensureCorpusRoot:
  "rootsAt (ensureCorpusRoot m corpus root) c =
     (if c = corpus then (rootsAt m corpus)(root \<mapsto> dirsAt m corpus root) else rootsAt m c)"
  by (auto simp: ensureCorpusRoot_def rootsAt_def dirsAt_def Let_def fun_eq_iff split: option.splits)

lemma dirsAt_ensureCorpusRoot [simp]:
  "dirsAt (ensureCorpusRoot m corpus root) c r = dirsAt m c r"
  by (auto simp: ensureCorpusRoot_def rootsAt_def dirsAt_def Let_def split: option.splits)

lemma dirsAt_storeDir:
  "dirsAt (storeDir m corpus root path dir) c r =
     (if c = corpus \<and> r = root then (dirsAt m corpus root)(path \<mapsto> dir) else dirsAt m c r)"
  by (auto simp: storeDir_def rootsAt_def dirsAt_def split: option.splits)

text \<open>
  \<^verbatim>\<open>ensureDir\<close>.  The Go function returns the pointer to the record of
  \<open>path\<close>; the model returns the updated tree, where that record is
  \<open>dirsAt m corpus root path\<close>.  The pointer \<^verbatim>\<open>parent\<close> returned by the
  recursive call is never nil (lemma \<open>ensureDir_present\<close> below), so reading it
  with \<open>the\<close> reads a record that is there.  The recursion is entered only for
  a path that had no record, after that path has got one: it ends because the
  parent is either nearer to the root in the order \<open>rank\<close>, or is the path
  itself, which now has a record.
\<close>

function ensureDir :: "kytheuri \<Rightarrow> Map \<Rightarrow> string \<Rightarrow> string \<Rightarrow> string \<Rightarrow> Map" where
  "ensureDir ku m corpus root path =
     (let m1 = ensureCorpusRoot m corpus root in
      case dirsAt m1 corpus root path of
        Some dir \<Rightarrow> m1
      | None \<Rightarrow>
          (let m2 = storeDir m1 corpus root path \<lparr>Subdirectory = [], FileTicket = []\<rparr> in
           if path \<noteq> ''/'' then
             (let m3 = ensureDir ku m2 corpus root (filepath_Dir path);
                  parent = the (dirsAt m3 corpus root (filepath_Dir path))
              in storeDir m3 corpus root (filepath_Dir path)
                   (parent\<lparr>Subdirectory :=
                      addToSet (Subdirectory parent) (String ku corpus root path)\<rparr>))
           else m2))"
  by pat_completeness auto
termination
proof (relation "measure (\<lambda>(ku, m, corpus, root, path).
          case dirsAt m corpus root path of None \<Rightarrow> rank path + 1 | Some dir \<Rightarrow> 0)")
  show "wf (measure (\<lambda>(ku, m, corpus, root, path).
          case dirsAt m corpus root path of None \<Rightarrow> rank path + 1 | Some dir \<Rightarrow> 0))"
    by simp
next
  fix ku :: kytheuri and m corpus root path m1 m2
  assume m1: "m1 = ensureCorpusRoot m corpus root"
    and none: "dirsAt m1 corpus root path = None"
    and m2: "m2 = storeDir m1 corpus root path \<lparr>Subdirectory = [], FileTicket = []\<rparr>"
    and nroot: "path \<noteq> ''/''"
  have n: "dirsAt m corpus root path = None" using none m1 by simp
  show "((ku, m2, corpus, root, filepath_Dir path), (ku, m, corpus, root, path))
        \<in> measure (\<lambda>(ku, m, corpus, root, path).
          case dirsAt m corpus root path of None \<Rightarrow> rank path + 1 | Some dir \<Rightarrow> 0)"
  proof (cases "filepath_Dir path = path")
    case True
    then show ?thesis using n m2 by (simp add: dirsAt_storeDir)
  next
    case False
    have "rank (filepath_Dir path) < rank path"
      using nroot False by (intro rank_Dir) (simp_all add: Separator_def)
    then show ?thesis using n by (simp split: option.splits)
  qed
qed

declare ensureDir.simps [simp del]

text \<open>
  \<^verbatim>\<open>AddFile\<close>: the ticket of the file, its path rooted at the separator, the
  record of the containing directory, and the ticket added to the files of
  that record.
\<close>

definition AddFile :: "kytheuri \<Rightarrow> Map \<Rightarrow> VName \<Rightarrow> Map" where
  "AddFile ku m file =
     (let ticket = ToString ku file;
          path = filepath_Join [''/'', Path file];
          m1 = ensureDir ku m (Corpus file) (Root file) (filepath_Dir path);
          dir = the (dirsAt m1 (Corpus file) (Root file) (filepath_Dir path))
      in storeDir m1 (Corpus file) (Root file) (filepath_Dir path)
           (dir\<lparr>FileTicket := addToSet (FileTicket dir) ticket\<rparr>))"

text \<open>
  The chain of directories from a path upwards, by repeated \<^verbatim>\<open>filepath.Dir\<close>,
  up to the root or to a path that is its own parent.  A directory \<open>P\<close> is at
  or above a directory \<open>d\<close> when \<open>P\<close> is in \<open>ancestors d\<close>.
\<close>

function ancestors :: "string \<Rightarrow> string list" where
  "ancestors path =
     (if path = ''/'' \<or> filepath_Dir path = path then [path]
      else path # ancestors (filepath_Dir path))"
  by pat_completeness auto
termination
  by (relation "measure rank") (auto intro!: rank_Dir simp: Separator_def)

declare ancestors.simps [simp del]

text \<open>The containing directory that \<^verbatim>\<open>AddFile\<close> computes for a file.\<close>

definition containingDir :: "VName \<Rightarrow> string" where
  "containingDir file = filepath_Dir (filepath_Join [''/'', Path file])"


section \<open>Population from a graph store\<close>

text \<open>
  \<^verbatim>\<open>spb.Entry\<close>, a fact of the graph store (message Entry of the storage
  protocol; its target, for edges, is not read here), and the
  \<^verbatim>\<open>spb.ScanRequest\<close> with the one field that \<^verbatim>\<open>Populate\<close> sets.
  Every fact has a source: the model has no fact whose source pointer is nil,
  which \<^verbatim>\<open>AddFile\<close> would dereference.
\<close>

record Entry =
  Source :: VName
  EdgeKind :: string
  FactName :: string
  FactValue :: string

record ScanRequest =
  FactPrefix :: string

text \<open>
  The two constants of package schema that \<^verbatim>\<open>Populate\<close> reads,
  \<^verbatim>\<open>schema.NodeKindFact\<close> and \<^verbatim>\<open>schema.FileKind\<close>.  The package is
  imported by the file tree and defined elsewhere; the constants are
  parameters of the model.
\<close>

record schema =
  NodeKindFact :: string
  FileKind :: string

text \<open>
  Modelled from the spec: \<^verbatim>\<open>graphstore.Service\<close> and its \<^verbatim>\<open>Scan\<close>, an
  interface that the file tree imports and that is implemented elsewhere.  The
  spec (section 6) gives the contract: given a filter, the scan invokes the callback once per matching
  fact; and (section 7) the scan itself can fail.  A store is the list of the
  facts that its scan reaches and the error, if any, that the scan ends with.
  The filter is a prefix of the fact name.  An error of the callback ends the
  scan and is returned.
\<close>

record GraphStore =
  facts :: "Entry list"
  failure :: "string option"

definition HasPrefix :: "string \<Rightarrow> string \<Rightarrow> bool" where
  "HasPrefix s pre = (take (length pre) s = pre)"

fun scan_facts :: "(Entry \<Rightarrow> 's \<Rightarrow> 's \<times> string option) \<Rightarrow> Entry list \<Rightarrow> 's \<Rightarrow> 's \<times> string option" where
  "scan_facts f [] s = (s, None)"
| "scan_facts f (entry # rest) s =
     (case f entry s of
        (s', Some err) \<Rightarrow> (s', Some err)
      | (s', None) \<Rightarrow> scan_facts f rest s')"

definition Scan ::
  "GraphStore \<Rightarrow> ScanRequest \<Rightarrow> (Entry \<Rightarrow> 's \<Rightarrow> 's \<times> string option) \<Rightarrow> 's \<Rightarrow> 's \<times> string option" where
  "Scan gs req f s =
     (case scan_facts f (filter (\<lambda>entry. HasPrefix (FactName entry) (FactPrefix req)) (facts gs)) s of
        (s', Some err) \<Rightarrow> (s', Some err)
      | (s', None) \<Rightarrow> (s', failure gs))"

text \<open>
  \<^verbatim>\<open>Populate\<close>.  The state that the callback changes is the tree and the
  counter \<^verbatim>\<open>total\<close> (written \<open>total'\<close>); the callback always returns nil.  The result is the
  tree and the error of \<^verbatim>\<open>Populate\<close>: the error of the scan, wrapped by
  \<^verbatim>\<open>fmt.Errorf\<close>, or nil.  The two log lines are left out.
\<close>

definition Populate_callback ::
  "kytheuri \<Rightarrow> schema \<Rightarrow> Entry \<Rightarrow> Map \<times> int \<Rightarrow> (Map \<times> int) \<times> string option" where
  "Populate_callback ku sc entry s =
     (case s of (m, total') \<Rightarrow>
        if FactName entry = NodeKindFact sc \<and> FactValue entry = FileKind sc
        then ((AddFile ku m (Source entry), total' + 1), None)
        else ((m, total'), None))"

definition Populate :: "kytheuri \<Rightarrow> schema \<Rightarrow> Map \<Rightarrow> GraphStore \<Rightarrow> Map \<times> string option" where
  "Populate ku sc m gs =
     (case Scan gs \<lparr>FactPrefix = NodeKindFact sc\<rparr> (Populate_callback ku sc) (m, 0) of
        ((m', total'), Some err) \<Rightarrow>
          (m', Some (''failed to Scan GraphStore for directory structure: '' @ err))
      | ((m', total'), None) \<Rightarrow> (m', None))"


section \<open>The service interface and the remote client\<close>

text \<open>
  The interface \<^verbatim>\<open>Service\<close>: its two methods, each returning a value and an
  error.  \<open>MapService\<close> is the in-memory tree as a service, with the orders
  in which its \<^verbatim>\<open>CorporaRoots\<close> visits the maps.
\<close>

record Service =
  Service_Dir :: "string \<Rightarrow> string \<Rightarrow> string \<Rightarrow> FileDirectory option \<times> string option"
  Service_CorporaRoots :: "(string \<times> string list) list \<times> string option"

definition MapService ::
  "(string set \<Rightarrow> string list) \<Rightarrow> (string \<Rightarrow> string set \<Rightarrow> string list) \<Rightarrow> Map \<Rightarrow> Service" where
  "MapService corpusOrder rootOrder m =
     \<lparr>Service_Dir = Dir m, Service_CorporaRoots = CorporaRoots corpusOrder rootOrder m\<rparr>"

text \<open>
  Modelled from the spec: package web (\<^verbatim>\<open>web.Call\<close>, \<^verbatim>\<open>web.ReadJSONBody\<close>,
  \<^verbatim>\<open>web.WriteResponse\<close>) and the HTTP transport under it, which the file
  tree imports and which are defined elsewhere.  The spec (sections 6 and 7)
  gives: two operations carried over a request and response transport; the record or an absent
  result for a directory that is not found; a failure of the index surfaces as
  a server error with the message, a malformed request as a client error; a
  failure of the transport surfaces to the caller as an error.  So: a request
  body is the decoded \<^verbatim>\<open>corpusPath\<close> (corpus, root, path) or is malformed; a
  response is the value written or an HTTP error; the network maps an address
  to the handlers registered there, and an address with no server is a
  failure of the transport.  The encoding is taken to lose nothing.
\<close>

datatype body = JSONBody "string \<times> string \<times> string" | MalformedBody string

datatype payload = DirPayload "FileDirectory option" | CorpusRootsPayload "(string \<times> string list) list"

datatype response = Written payload | HttpError nat string

type_synonym mux = "string \<rightharpoonup> (body \<Rightarrow> response)"

definition ReadJSONBody :: "body \<Rightarrow> string + string \<times> string \<times> string" where
  "ReadJSONBody b = (case b of JSONBody req \<Rightarrow> Inr req | MalformedBody err \<Rightarrow> Inl err)"

definition web_Call :: "(string \<rightharpoonup> mux) \<Rightarrow> string \<Rightarrow> string \<Rightarrow> body \<Rightarrow> string + payload" where
  "web_Call net addr method req =
     (case net addr of
        None \<Rightarrow> Inl ''transport failure''
      | Some handlers \<Rightarrow>
          (case handlers (''/'' @ method) of
             None \<Rightarrow> Inl ''not found''
           | Some handler \<Rightarrow>
               (case handler req of
                  HttpError code msg \<Rightarrow> Inl msg
                | Written p \<Rightarrow> Inr p)))"

text \<open>
  \<^verbatim>\<open>RegisterHTTPHandlers\<close>: the two handlers, under "/corpusRoots" and
  "/dir".  An error of the service is answered with status 500, a body that
  cannot be read with status 400.  The latency log lines are left out.
\<close>

definition RegisterHTTPHandlers :: "Service \<Rightarrow> mux" where
  "RegisterHTTPHandlers ft =
     [''/corpusRoots'' \<mapsto>
        (\<lambda>r. case Service_CorporaRoots ft of
               (cr, Some err) \<Rightarrow> HttpError 500 err
             | (cr, None) \<Rightarrow> Written (CorpusRootsPayload cr)),
      ''/dir'' \<mapsto>
        (\<lambda>r. case ReadJSONBody r of
               Inl err \<Rightarrow> HttpError 400 err
             | Inr (corpus, root, path) \<Rightarrow>
                 (case Service_Dir ft corpus root path of
                    (dir, Some err) \<Rightarrow> HttpError 500 err
                  | (dir, None) \<Rightarrow> Written (DirPayload dir)))]"

text \<open>
  \<^verbatim>\<open>webClient\<close>: each method declares a zero \<^verbatim>\<open>reply\<close>, lets
  \<^verbatim>\<open>web.Call\<close> decode the response into it and returns its address with the
  error of the call.  An absent record in the response leaves the reply at its
  zero value.
\<close>

definition webClient_CorporaRoots ::
  "(string \<rightharpoonup> mux) \<Rightarrow> string \<Rightarrow> (string \<times> string list) list \<times> string option" where
  "webClient_CorporaRoots net addr =
     (case web_Call net addr ''corpusRoots'' (JSONBody ([], [], [])) of
        Inl err \<Rightarrow> ([], Some err)
      | Inr (CorpusRootsPayload cr) \<Rightarrow> (cr, None)
      | Inr (DirPayload dir) \<Rightarrow> ([], None))"

definition webClient_Dir ::
  "(string \<rightharpoonup> mux) \<Rightarrow> string \<Rightarrow> string \<Rightarrow> string \<Rightarrow> string
     \<Rightarrow> FileDirectory option \<times> string option" where
  "webClient_Dir net addr corpus root path =
     (case web_Call net addr ''dir'' (JSONBody (corpus, root, path)) of
        Inl err \<Rightarrow> (Some \<lparr>Subdirectory = [], FileTicket = []\<rparr>, Some err)
      | Inr (DirPayload (Some dir)) \<Rightarrow> (Some dir, None)
      | Inr (DirPayload None) \<Rightarrow> (Some \<lparr>Subdirectory = [], FileTicket = []\<rparr>, None)
      | Inr (CorpusRootsPayload cr) \<Rightarrow> (Some \<lparr>Subdirectory = [], FileTicket = []\<rparr>, None))"

definition WebClient :: "(string \<rightharpoonup> mux) \<Rightarrow> string \<Rightarrow> Service" where
  "WebClient net addr =
     \<lparr>Service_Dir = webClient_Dir net addr, Service_CorporaRoots = webClient_CorporaRoots net addr\<rparr>"


section \<open>Facts about the file tree\<close>

lemma M_storeDir:
  "M (storeDir m c r p d) = (M m)(c \<mapsto> (rootsAt m c)(r \<mapsto> (dirsAt m c r)(p \<mapsto> d)))"
  by (simp add: storeDir_def)

lemma rootsAt_storeDir:
  "rootsAt (storeDir m c r p d) c' =
     (if c' = c then (rootsAt m c)(r \<mapsto> (dirsAt m c r)(p \<mapsto> d)) else rootsAt m c')"
  by (simp add: storeDir_def rootsAt_def)

lemma storeDir_ensureCorpusRoot [simp]:
  "storeDir (ensureCorpusRoot m c r) c r p d = storeDir m c r p d"
proof -
  have "M (ensureCorpusRoot m c r) = (M m)(c \<mapsto> (rootsAt m c)(r \<mapsto> dirsAt m c r))"
    by (auto simp: ensureCorpusRoot_def rootsAt_def dirsAt_def Let_def fun_eq_iff split: option.splits)
  moreover have "Map.more (ensureCorpusRoot m c r) = Map.more m"
    by (auto simp: ensureCorpusRoot_def Let_def split: option.splits)
  ultimately show ?thesis
    by (simp add: storeDir_def rootsAt_ensureCorpusRoot)
qed

lemma dirsAt_Some_M:
  assumes "dirsAt m c r p = Some d"
  shows "\<exists>rs ds. M m c = Some rs \<and> rs r = Some ds \<and> ds p = Some d"
  using assms by (auto simp: dirsAt_def rootsAt_def split: option.splits)

lemma ensureCorpusRoot_id:
  assumes "dirsAt m c r p = Some d"
  shows "ensureCorpusRoot m c r = m"
proof -
  from dirsAt_Some_M [OF assms] obtain rs ds where "M m c = Some rs" "rs r = Some ds" by blast
  then show ?thesis by (simp add: ensureCorpusRoot_def rootsAt_def)
qed

lemma storeDir_id:
  assumes "dirsAt m c r p = Some d"
  shows "storeDir m c r p d = m"
proof -
  from dirsAt_Some_M [OF assms] obtain rs ds
    where "M m c = Some rs" "rs r = Some ds" "ds p = Some d" by blast
  then show ?thesis by (simp add: storeDir_def rootsAt_def dirsAt_def map_upd_triv)
qed

lemma Dir_dirsAt: "Dir m c r p = (dirsAt m c r p, None)"
  by (simp add: Dir_def dirsAt_def rootsAt_def split: option.splits)

lemma ensureDir_hit:
  "dirsAt m c r p = Some d \<Longrightarrow> ensureDir ku m c r p = m"
  by (subst ensureDir.simps) (simp add: ensureCorpusRoot_id)

lemma ensureDir_root:
  "dirsAt m c r ''/'' = None \<Longrightarrow>
   ensureDir ku m c r ''/'' = storeDir m c r ''/'' \<lparr>Subdirectory = [], FileTicket = []\<rparr>"
  by (subst ensureDir.simps) simp

text \<open>
  The last step of the recursive branch of \<^verbatim>\<open>ensureDir\<close>, named for the
  proofs: the ticket of \<open>p\<close> is added to the subdirectories of its parent.
\<close>

definition linkParent :: "kytheuri \<Rightarrow> Map \<Rightarrow> string \<Rightarrow> string \<Rightarrow> string \<Rightarrow> Map" where
  "linkParent ku m c r p =
     storeDir m c r (filepath_Dir p)
       ((the (dirsAt m c r (filepath_Dir p)))\<lparr>Subdirectory :=
           addToSet (Subdirectory (the (dirsAt m c r (filepath_Dir p)))) (String ku c r p)\<rparr>)"

lemma ensureDir_step:
  "dirsAt m c r p = None \<Longrightarrow> p \<noteq> ''/'' \<Longrightarrow>
   ensureDir ku m c r p =
     linkParent ku
       (ensureDir ku (storeDir m c r p \<lparr>Subdirectory = [], FileTicket = []\<rparr>) c r (filepath_Dir p))
       c r p"
  by (subst ensureDir.simps) (simp add: linkParent_def Let_def)

lemma ensureDir_cases [case_names hit root step]:
  fixes ku :: kytheuri
  assumes "\<And>m p d. dirsAt m c r p = Some d \<Longrightarrow> P m p"
    and "\<And>m. dirsAt m c r ''/'' = None \<Longrightarrow> P m ''/''"
    and "\<And>m p. dirsAt m c r p = None \<Longrightarrow> p \<noteq> ''/'' \<Longrightarrow>
           P (storeDir m c r p \<lparr>Subdirectory = [], FileTicket = []\<rparr>) (filepath_Dir p) \<Longrightarrow> P m p"
  shows "P m p"
proof -
  have "c' = c \<Longrightarrow> r' = r \<Longrightarrow> P m p" for c' r'
  proof (induction ku m c' r' p rule: ensureDir.induct)
    case (1 ku m corpus root path)
    show ?case
    proof (cases "dirsAt m c r path")
      case (Some d)
      then show ?thesis by (rule assms(1))
    next
      case None
      show ?thesis
      proof (cases "path = ''/''")
        case True
        then show ?thesis using None assms(2) by simp
      next
        case False
        have "dirsAt (ensureCorpusRoot m corpus root) corpus root path = None"
          using None 1(2,3) by simp
        from 1(1) [OF refl this refl False 1(2,3)]
        have "P (storeDir m c r path \<lparr>Subdirectory = [], FileTicket = []\<rparr>) (filepath_Dir path)"
          using 1(2,3) by simp
        with None False show ?thesis by (rule assms(3))
      qed
    qed
  qed
  then show ?thesis by simp
qed


lemma dirsAt_linkParent:
  "dirsAt (linkParent ku m c r p) c' r' =
     (if c' = c \<and> r' = r
      then (dirsAt m c r)(filepath_Dir p \<mapsto>
             (the (dirsAt m c r (filepath_Dir p)))\<lparr>Subdirectory :=
                addToSet (Subdirectory (the (dirsAt m c r (filepath_Dir p)))) (String ku c r p)\<rparr>)
      else dirsAt m c' r')"
  by (simp add: linkParent_def dirsAt_storeDir)

lemma addToSet_found_iff: "addToSet_found strs str = (str \<in> set strs)"
  by (induction strs) auto

lemma set_addToSet: "set (addToSet strs str) = insert str (set strs)"
  by (auto simp: addToSet_def addToSet_found_iff)

lemma distinct_addToSet: "distinct strs \<Longrightarrow> distinct (addToSet strs str)"
  by (auto simp: addToSet_def addToSet_found_iff)

lemma addToSet_member: "str \<in> set strs \<Longrightarrow> addToSet strs str = strs"
  by (simp add: addToSet_def addToSet_found_iff)

lemma ensureDir_other:
  "c' \<noteq> c \<or> r' \<noteq> r \<Longrightarrow> dirsAt (ensureDir ku m c r p) c' r' = dirsAt m c' r'"
proof (induction m p rule: ensureDir_cases [where c = c and r = r])
  case (hit m p d)
  then show ?case by (simp add: ensureDir_hit)
next
  case (root m)
  then show ?case by (auto simp add: ensureDir_root dirsAt_storeDir)
next
  case (step m p)
  then show ?case by (auto simp add: ensureDir_step dirsAt_linkParent dirsAt_storeDir)
qed

text \<open>What a step of the insertion may do to the records of one corpus and root.\<close>

definition extends :: "(string \<rightharpoonup> FileDirectory) \<Rightarrow> (string \<rightharpoonup> FileDirectory) \<Rightarrow> bool" where
  "extends ds ds' =
     (\<forall>q. case ds q of
            Some d \<Rightarrow> (\<exists>d'. ds' q = Some d' \<and> FileTicket d' = FileTicket d
                          \<and> set (Subdirectory d) \<subseteq> set (Subdirectory d'))
          | None \<Rightarrow> (\<forall>d'. ds' q = Some d' \<longrightarrow> FileTicket d' = []))"

lemma extends_refl: "extends ds ds"
  by (auto simp: extends_def split: option.splits)

lemma extends_trans: "extends a b \<Longrightarrow> extends b c \<Longrightarrow> extends a c"
  unfolding extends_def
  apply (intro allI)
  subgoal for q
    apply (erule allE [where x = q])+
    apply (cases "a q"; cases "b q"; cases "c q")
    apply (auto)
    done
  done

lemma extends_new: "ds p = None \<Longrightarrow> extends ds (ds(p \<mapsto> \<lparr>Subdirectory = [], FileTicket = []\<rparr>))"
  by (auto simp: extends_def split: option.splits)

lemma extends_link:
  "ds p = Some d \<Longrightarrow> extends ds (ds(p \<mapsto> d\<lparr>Subdirectory := addToSet (Subdirectory d) t\<rparr>))"
  by (auto simp: extends_def set_addToSet split: option.splits)

lemma dirsAt_storeDir_same: "dirsAt (storeDir m c r p d) c r = (dirsAt m c r)(p \<mapsto> d)"
  by (simp add: dirsAt_storeDir)

lemma dirsAt_linkParent_same:
  "dirsAt m c r (filepath_Dir p) = Some pd \<Longrightarrow>
   dirsAt (linkParent ku m c r p) c r =
     (dirsAt m c r)(filepath_Dir p \<mapsto> pd\<lparr>Subdirectory := addToSet (Subdirectory pd) (String ku c r p)\<rparr>)"
  by (simp add: dirsAt_linkParent)

lemma extends_present: "extends ds ds' \<Longrightarrow> ds q \<noteq> None \<Longrightarrow> ds' q \<noteq> None"
  unfolding extends_def by (erule allE [where x = q]) (auto split: option.splits)

lemma ensureDir_extends_present:
  "extends (dirsAt m c r) (dirsAt (ensureDir ku m c r p) c r)
   \<and> dirsAt (ensureDir ku m c r p) c r p \<noteq> None"
proof (induction m p rule: ensureDir_cases [where c = c and r = r])
  case (hit m p d)
  then show ?case by (simp add: ensureDir_hit extends_refl)
next
  case (root m)
  have "extends (dirsAt m c r) ((dirsAt m c r)(''/'' \<mapsto> \<lparr>Subdirectory = [], FileTicket = []\<rparr>))"
    using root by (rule extends_new)
  moreover have "((dirsAt m c r)(''/'' \<mapsto> \<lparr>Subdirectory = [], FileTicket = []\<rparr>)) ''/'' \<noteq> None"
    by simp
  ultimately show ?case
    unfolding ensureDir_root [OF root] dirsAt_storeDir_same by blast
next
  case (step m p)
  let ?m2 = "storeDir m c r p \<lparr>Subdirectory = [], FileTicket = []\<rparr>"
  let ?m3 = "ensureDir ku ?m2 c r (filepath_Dir p)"
  have a: "extends (dirsAt m c r) (dirsAt ?m2 c r)"
    unfolding dirsAt_storeDir_same using step(1) by (rule extends_new)
  obtain pd where pd: "dirsAt ?m3 c r (filepath_Dir p) = Some pd"
    using step(3) by auto
  have b: "extends (dirsAt ?m3 c r) (dirsAt (linkParent ku ?m3 c r p) c r)"
    unfolding dirsAt_linkParent_same [OF pd] using pd by (rule extends_link)
  have e: "extends (dirsAt m c r) (dirsAt (linkParent ku ?m3 c r p) c r)"
    using step(3) a b by (blast intro: extends_trans)
  have "dirsAt ?m2 c r p \<noteq> None" unfolding dirsAt_storeDir_same by simp
  then have "dirsAt ?m3 c r p \<noteq> None"
    using step(3) extends_present by blast
  then have "dirsAt (linkParent ku ?m3 c r p) c r p \<noteq> None"
    using b extends_present by blast
  with e show ?case
    unfolding ensureDir_step [OF step(1,2)] by blast
qed

lemma ensureDir_present: "dirsAt (ensureDir ku m c r p) c r p \<noteq> None"
  using ensureDir_extends_present by blast

lemma ensureDir_extends: "extends (dirsAt m c r) (dirsAt (ensureDir ku m c r p) c r)"
  using ensureDir_extends_present by blast


lemma M_ensureDir_other: "c' \<noteq> c \<Longrightarrow> M (ensureDir ku m c r p) c' = M m c'"
proof (induction m p rule: ensureDir_cases [where c = c and r = r])
  case (hit m p d)
  then show ?case by (simp add: ensureDir_hit)
next
  case (root m)
  then show ?case by (simp add: ensureDir_root M_storeDir)
next
  case (step m p)
  then show ?case by (simp add: ensureDir_step linkParent_def M_storeDir)
qed

lemma rootsAt_ensureDir_other:
  "r' \<noteq> r \<Longrightarrow> rootsAt (ensureDir ku m c r p) c r' = rootsAt m c r'"
proof (induction m p rule: ensureDir_cases [where c = c and r = r])
  case (hit m p d)
  then show ?case by (simp add: ensureDir_hit)
next
  case (root m)
  then show ?case by (simp add: ensureDir_root rootsAt_storeDir)
next
  case (step m p)
  then show ?case by (simp add: ensureDir_step linkParent_def rootsAt_storeDir)
qed

text \<open>The files recorded for a directory; none when the directory has no record.\<close>

definition filesAt :: "Map \<Rightarrow> string \<Rightarrow> string \<Rightarrow> string \<Rightarrow> string list" where
  "filesAt m corpus root path =
     (case fst (Dir m corpus root path) of None \<Rightarrow> [] | Some dir \<Rightarrow> FileTicket dir)"

lemma filesAt_dirsAt:
  "filesAt m c r p = (case dirsAt m c r p of None \<Rightarrow> [] | Some dir \<Rightarrow> FileTicket dir)"
  by (simp add: filesAt_def Dir_dirsAt)

lemma extends_files:
  assumes "extends ds ds'"
  shows "(case ds' q of None \<Rightarrow> [] | Some d \<Rightarrow> FileTicket d)
         = (case ds q of None \<Rightarrow> [] | Some d \<Rightarrow> FileTicket d)"
  using assms unfolding extends_def
  by (erule_tac x = q in allE) (auto split: option.splits)

lemma AddFile_unfold:
  "AddFile ku m f =
     storeDir (ensureDir ku m (Corpus f) (Root f) (containingDir f)) (Corpus f) (Root f) (containingDir f)
       ((the (dirsAt (ensureDir ku m (Corpus f) (Root f) (containingDir f)) (Corpus f) (Root f) (containingDir f)))
          \<lparr>FileTicket := addToSet
             (FileTicket (the (dirsAt (ensureDir ku m (Corpus f) (Root f) (containingDir f)) (Corpus f) (Root f) (containingDir f))))
             (ToString ku f)\<rparr>)"
  by (simp add: AddFile_def containingDir_def Let_def)

lemma AddFile_dirsAt_same:
  obtains d where
    "dirsAt (ensureDir ku m (Corpus f) (Root f) (containingDir f)) (Corpus f) (Root f) (containingDir f) = Some d"
    "dirsAt (AddFile ku m f) (Corpus f) (Root f)
       = (dirsAt (ensureDir ku m (Corpus f) (Root f) (containingDir f)) (Corpus f) (Root f))
           (containingDir f \<mapsto> d\<lparr>FileTicket := addToSet (FileTicket d) (ToString ku f)\<rparr>)"
proof -
  obtain d where d:
    "dirsAt (ensureDir ku m (Corpus f) (Root f) (containingDir f)) (Corpus f) (Root f) (containingDir f) = Some d"
    using ensureDir_present [of ku m "Corpus f" "Root f" "containingDir f"] by auto
  show thesis
    by (rule that [OF d]) (simp add: AddFile_unfold d dirsAt_storeDir_same)
qed

lemma AddFile_other:
  "c \<noteq> Corpus f \<or> r \<noteq> Root f \<Longrightarrow> dirsAt (AddFile ku m f) c r = dirsAt m c r"
  by (auto simp: AddFile_unfold dirsAt_storeDir ensureDir_other)

lemma AddFile_M_other: "c \<noteq> Corpus f \<Longrightarrow> M (AddFile ku m f) c = M m c"
  by (simp add: AddFile_unfold M_storeDir M_ensureDir_other)

lemma AddFile_rootsAt_other:
  "r \<noteq> Root f \<Longrightarrow> rootsAt (AddFile ku m f) (Corpus f) r = rootsAt m (Corpus f) r"
  by (simp add: AddFile_unfold rootsAt_storeDir rootsAt_ensureDir_other)

lemma AddFile_files_other:
  assumes "p \<noteq> containingDir f"
  shows "filesAt (AddFile ku m f) (Corpus f) (Root f) p = filesAt m (Corpus f) (Root f) p"
proof -
  obtain d where
    "dirsAt (AddFile ku m f) (Corpus f) (Root f)
       = (dirsAt (ensureDir ku m (Corpus f) (Root f) (containingDir f)) (Corpus f) (Root f))
           (containingDir f \<mapsto> d\<lparr>FileTicket := addToSet (FileTicket d) (ToString ku f)\<rparr>)"
    by (rule AddFile_dirsAt_same)
  then have "dirsAt (AddFile ku m f) (Corpus f) (Root f) p
      = dirsAt (ensureDir ku m (Corpus f) (Root f) (containingDir f)) (Corpus f) (Root f) p"
    using assms by simp
  moreover have "extends (dirsAt m (Corpus f) (Root f))
      (dirsAt (ensureDir ku m (Corpus f) (Root f) (containingDir f)) (Corpus f) (Root f))"
    by (rule ensureDir_extends)
  from extends_files [OF this, of p]
  have "(case dirsAt (ensureDir ku m (Corpus f) (Root f) (containingDir f)) (Corpus f) (Root f) p of
           None \<Rightarrow> [] | Some d \<Rightarrow> FileTicket d)
        = (case dirsAt m (Corpus f) (Root f) p of None \<Rightarrow> [] | Some d \<Rightarrow> FileTicket d)" .
  ultimately show ?thesis
    unfolding filesAt_dirsAt by simp
qed

lemma AddFile_files_same:
  "set (filesAt (AddFile ku m f) (Corpus f) (Root f) (containingDir f))
     = insert (ToString ku f) (set (filesAt m (Corpus f) (Root f) (containingDir f)))"
proof -
  obtain d where d:
    "dirsAt (ensureDir ku m (Corpus f) (Root f) (containingDir f)) (Corpus f) (Root f) (containingDir f) = Some d"
    and a: "dirsAt (AddFile ku m f) (Corpus f) (Root f)
       = (dirsAt (ensureDir ku m (Corpus f) (Root f) (containingDir f)) (Corpus f) (Root f))
           (containingDir f \<mapsto> d\<lparr>FileTicket := addToSet (FileTicket d) (ToString ku f)\<rparr>)"
    by (rule AddFile_dirsAt_same)
  have "extends (dirsAt m (Corpus f) (Root f))
      (dirsAt (ensureDir ku m (Corpus f) (Root f) (containingDir f)) (Corpus f) (Root f))"
    by (rule ensureDir_extends)
  from extends_files [OF this, of "containingDir f"]
  have "FileTicket d = filesAt m (Corpus f) (Root f) (containingDir f)"
    unfolding filesAt_dirsAt using d by simp
  then show ?thesis
    unfolding filesAt_dirsAt a by (simp add: set_addToSet)
qed

lemma AddFile_twice: "AddFile ku (AddFile ku m f) f = AddFile ku m f"
proof -
  let ?c = "Corpus f" and ?r = "Root f" and ?p = "containingDir f"
  let ?m1 = "AddFile ku m f"
  obtain d where
    a: "dirsAt ?m1 ?c ?r
       = (dirsAt (ensureDir ku m ?c ?r ?p) ?c ?r)
           (?p \<mapsto> d\<lparr>FileTicket := addToSet (FileTicket d) (ToString ku f)\<rparr>)"
    by (rule AddFile_dirsAt_same)
  let ?d1 = "d\<lparr>FileTicket := addToSet (FileTicket d) (ToString ku f)\<rparr>"
  have d1: "dirsAt ?m1 ?c ?r ?p = Some ?d1" unfolding a by simp
  have t: "ToString ku f \<in> set (FileTicket ?d1)" by (simp add: set_addToSet)
  have e: "ensureDir ku ?m1 ?c ?r ?p = ?m1" using d1 by (rule ensureDir_hit)
  have "?d1\<lparr>FileTicket := addToSet (FileTicket ?d1) (ToString ku f)\<rparr> = ?d1"
    using addToSet_member [OF t] by simp
  then have "AddFile ku ?m1 f = storeDir ?m1 ?c ?r ?p ?d1"
    by (subst AddFile_unfold) (simp only: e d1 option.sel)
  also have "\<dots> = ?m1" using d1 by (rule storeDir_id)
  finally show ?thesis .
qed



section \<open>Invariants of the tree under insertion\<close>

text \<open>Directory \<open>q\<close> has its link: its parent has a record that lists the ticket of \<open>q\<close>.\<close>

definition linked :: "kytheuri \<Rightarrow> string \<Rightarrow> string \<Rightarrow> (string \<rightharpoonup> FileDirectory) \<Rightarrow> string \<Rightarrow> bool" where
  "linked ku c r ds q =
     (q \<noteq> ''/'' \<longrightarrow>
        (\<exists>pd. ds (filepath_Dir q) = Some pd \<and> String ku c r q \<in> set (Subdirectory pd)))"

text \<open>A change of the records that keeps every record and only adds subdirectories.\<close>

definition grows :: "(string \<rightharpoonup> FileDirectory) \<Rightarrow> (string \<rightharpoonup> FileDirectory) \<Rightarrow> bool" where
  "grows ds ds' =
     (\<forall>q d. ds q = Some d \<longrightarrow>
        (\<exists>d'. ds' q = Some d' \<and> set (Subdirectory d) \<subseteq> set (Subdirectory d')))"

lemma extends_grows: "extends ds ds' \<Longrightarrow> grows ds ds'"
  unfolding extends_def grows_def
  by (intro allI impI, erule_tac x = q in allE) auto

lemma grows_linked: "grows ds ds' \<Longrightarrow> linked ku c r ds q \<Longrightarrow> linked ku c r ds' q"
  unfolding grows_def linked_def by blast

lemma grows_new: "ds p = None \<Longrightarrow> grows ds (ds(p \<mapsto> d))"
  unfolding grows_def by auto

lemma grows_files: "ds p = Some d \<Longrightarrow> grows ds (ds(p \<mapsto> d\<lparr>FileTicket := t\<rparr>))"
  unfolding grows_def by auto

lemma grows_link:
  "ds p = Some d \<Longrightarrow> grows ds (ds(p \<mapsto> d\<lparr>Subdirectory := addToSet (Subdirectory d) t\<rparr>))"
  unfolding grows_def by (auto simp: set_addToSet)

lemma ensureDir_linked:
  "(\<forall>q. dirsAt m c r q \<noteq> None \<longrightarrow> q \<notin> X \<longrightarrow> linked ku c r (dirsAt m c r) q) \<longrightarrow>
   (\<forall>q. dirsAt (ensureDir ku m c r p) c r q \<noteq> None \<longrightarrow> q \<notin> X \<longrightarrow>
        linked ku c r (dirsAt (ensureDir ku m c r p) c r) q)"
proof (induction m p arbitrary: X rule: ensureDir_cases [where c = c and r = r])
  case (hit m p d)
  then show ?case by (simp add: ensureDir_hit)
next
  case (root m)
  let ?ds' = "(dirsAt m c r)(''/'' \<mapsto> \<lparr>Subdirectory = [], FileTicket = []\<rparr>)"
  have g: "grows (dirsAt m c r) ?ds'" using root by (rule grows_new)
  have "linked ku c r ?ds' q" if "?ds' q \<noteq> None" "q \<notin> X"
    and h: "\<forall>q. dirsAt m c r q \<noteq> None \<longrightarrow> q \<notin> X \<longrightarrow> linked ku c r (dirsAt m c r) q" for q
  proof (cases "q = ''/''")
    case True
    then show ?thesis by (simp add: linked_def)
  next
    case False
    then have "dirsAt m c r q \<noteq> None" using that(1) by simp
    then show ?thesis using h that(2) g grows_linked by blast
  qed
  then show ?case
    unfolding ensureDir_root [OF root] dirsAt_storeDir_same by blast
next
  case (step m p)
  let ?m2 = "storeDir m c r p \<lparr>Subdirectory = [], FileTicket = []\<rparr>"
  let ?m3 = "ensureDir ku ?m2 c r (filepath_Dir p)"
  let ?m4 = "linkParent ku ?m3 c r p"
  show ?case
  proof (intro impI allI)
    fix q
    assume h: "\<forall>q. dirsAt m c r q \<noteq> None \<longrightarrow> q \<notin> X \<longrightarrow> linked ku c r (dirsAt m c r) q"
      and q: "dirsAt (ensureDir ku m c r p) c r q \<noteq> None" and qx: "q \<notin> X"
    have g2: "grows (dirsAt m c r) (dirsAt ?m2 c r)"
      unfolding dirsAt_storeDir_same using step(1) by (rule grows_new)
    have h2: "\<forall>q. dirsAt ?m2 c r q \<noteq> None \<longrightarrow> q \<notin> insert p X \<longrightarrow> linked ku c r (dirsAt ?m2 c r) q"
    proof (intro allI impI)
      fix q assume a: "dirsAt ?m2 c r q \<noteq> None" "q \<notin> insert p X"
      then have "dirsAt m c r q \<noteq> None" unfolding dirsAt_storeDir_same by simp
      then show "linked ku c r (dirsAt ?m2 c r) q" using h a(2) g2 grows_linked by blast
    qed
    have h3: "\<forall>q. dirsAt ?m3 c r q \<noteq> None \<longrightarrow> q \<notin> insert p X \<longrightarrow> linked ku c r (dirsAt ?m3 c r) q"
      using step(3) [of "insert p X"] h2 by blast
    obtain pd where pd: "dirsAt ?m3 c r (filepath_Dir p) = Some pd"
      using ensureDir_present [of ku ?m2 c r "filepath_Dir p"] by auto
    note m4 = dirsAt_linkParent_same [OF pd, of ku]
    have g4: "grows (dirsAt ?m3 c r) (dirsAt ?m4 c r)"
      unfolding m4 using pd by (rule grows_link)
    have q4: "dirsAt ?m4 c r q \<noteq> None" using q unfolding ensureDir_step [OF step(1,2)] .
    have "linked ku c r (dirsAt ?m4 c r) q"
    proof (cases "q = p")
      case True
      then show ?thesis unfolding m4 by (simp add: linked_def set_addToSet)
    next
      case False
      have "dirsAt ?m3 c r q \<noteq> None" using q4 pd unfolding m4 by (auto split: if_splits)
      then have "linked ku c r (dirsAt ?m3 c r) q" using h3 False qx by blast
      then show ?thesis using g4 grows_linked by blast
    qed
    then show "linked ku c r (dirsAt (ensureDir ku m c r p) c r) q"
      unfolding ensureDir_step [OF step(1,2)] .
  qed
qed

lemma ancestors_self: "p \<in> set (ancestors p)"
  by (subst ancestors.simps) simp

lemma ancestors_Dir:
  assumes "q \<in> set (ancestors (filepath_Dir p))" "p \<noteq> ''/''"
  shows "q \<in> set (ancestors p)"
proof (cases "filepath_Dir p = p")
  case True
  then show ?thesis using assms by simp
next
  case False
  then have "ancestors p = p # ancestors (filepath_Dir p)"
    using assms(2) by (subst ancestors.simps) simp
  then show ?thesis using assms(1) by simp
qed

lemma ensureDir_dom_upper:
  "dirsAt (ensureDir ku m c r p) c r q \<noteq> None \<longrightarrow>
   dirsAt m c r q \<noteq> None \<or> q \<in> set (ancestors p)"
proof (induction m p rule: ensureDir_cases [where c = c and r = r])
  case (hit m p d)
  then show ?case by (simp add: ensureDir_hit)
next
  case (root m)
  show ?case
    unfolding ensureDir_root [OF root] dirsAt_storeDir_same
    using ancestors_self [of "''/''"] by (auto split: if_splits)
next
  case (step m p)
  let ?m2 = "storeDir m c r p \<lparr>Subdirectory = [], FileTicket = []\<rparr>"
  let ?m3 = "ensureDir ku ?m2 c r (filepath_Dir p)"
  obtain pd where pd: "dirsAt ?m3 c r (filepath_Dir p) = Some pd"
    using ensureDir_present [of ku ?m2 c r "filepath_Dir p"] by auto
  show ?case
  proof
    assume "dirsAt (ensureDir ku m c r p) c r q \<noteq> None"
    then have "dirsAt ?m3 c r q \<noteq> None"
      unfolding ensureDir_step [OF step(1,2)] dirsAt_linkParent_same [OF pd]
      using pd by (auto split: if_splits)
    then have "dirsAt ?m2 c r q \<noteq> None \<or> q \<in> set (ancestors (filepath_Dir p))"
      using step(3) by blast
    then have "dirsAt m c r q \<noteq> None \<or> q = p \<or> q \<in> set (ancestors (filepath_Dir p))"
      unfolding dirsAt_storeDir_same by (auto split: if_splits)
    then show "dirsAt m c r q \<noteq> None \<or> q \<in> set (ancestors p)"
      using ancestors_self [of p] ancestors_Dir [OF _ step(2)] by blast
  qed
qed

lemma closed_ancestors:
  assumes "\<And>q. ds q \<noteq> None \<Longrightarrow> q \<noteq> ''/'' \<Longrightarrow> ds (filepath_Dir q) \<noteq> None"
  shows "ds p \<noteq> None \<Longrightarrow> q \<in> set (ancestors p) \<Longrightarrow> ds q \<noteq> None"
proof (induction p rule: ancestors.induct)
  case (1 path)
  show ?case
  proof (cases "path = ''/'' \<or> filepath_Dir path = path")
    case True
    then have "ancestors path = [path]" by (subst ancestors.simps) simp
    then show ?thesis using 1(2,3) by simp
  next
    case False
    then have a: "ancestors path = path # ancestors (filepath_Dir path)"
      by (subst ancestors.simps) simp
    have "ds (filepath_Dir path) \<noteq> None" using assms 1(2) False by blast
    then show ?thesis using 1(1) [OF False] 1(2,3) a by auto
  qed
qed


text \<open>Every recorded directory of the tree has its link.\<close>

definition wellLinked :: "kytheuri \<Rightarrow> Map \<Rightarrow> bool" where
  "wellLinked ku m = (\<forall>c r q. dirsAt m c r q \<noteq> None \<longrightarrow> linked ku c r (dirsAt m c r) q)"

lemma dirsAt_NewMap [simp]: "dirsAt NewMap c r q = None"
  by (simp add: NewMap_def dirsAt_def rootsAt_def)

lemma wellLinked_NewMap: "wellLinked ku NewMap"
  by (simp add: wellLinked_def)

lemma AddFile_wellLinked:
  assumes "wellLinked ku m"
  shows "wellLinked ku (AddFile ku m f)"
  unfolding wellLinked_def
proof (intro allI impI)
  fix c r q
  assume q: "dirsAt (AddFile ku m f) c r q \<noteq> None"
  let ?e = "ensureDir ku m (Corpus f) (Root f) (containingDir f)"
  show "linked ku c r (dirsAt (AddFile ku m f) c r) q"
  proof (cases "c = Corpus f \<and> r = Root f")
    case False
    then have "dirsAt (AddFile ku m f) c r = dirsAt m c r" by (intro AddFile_other) auto
    then show ?thesis using q assms by (simp add: wellLinked_def)
  next
    case True
    obtain d where d: "dirsAt ?e (Corpus f) (Root f) (containingDir f) = Some d"
      and a: "dirsAt (AddFile ku m f) (Corpus f) (Root f)
         = (dirsAt ?e (Corpus f) (Root f))
             (containingDir f \<mapsto> d\<lparr>FileTicket := addToSet (FileTicket d) (ToString ku f)\<rparr>)"
      by (rule AddFile_dirsAt_same)
    have "\<forall>q. dirsAt m (Corpus f) (Root f) q \<noteq> None \<longrightarrow> q \<notin> {} \<longrightarrow>
            linked ku (Corpus f) (Root f) (dirsAt m (Corpus f) (Root f)) q"
      using assms by (simp add: wellLinked_def)
    with ensureDir_linked [of m "Corpus f" "Root f" "{}" ku "containingDir f"]
    have l: "\<forall>q. dirsAt ?e (Corpus f) (Root f) q \<noteq> None \<longrightarrow>
            linked ku (Corpus f) (Root f) (dirsAt ?e (Corpus f) (Root f)) q"
      by blast
    have "(dirsAt (AddFile ku m f) (Corpus f) (Root f) q \<noteq> None)
            = (dirsAt ?e (Corpus f) (Root f) q \<noteq> None)"
      unfolding a using d by auto
    then have "dirsAt ?e (Corpus f) (Root f) q \<noteq> None"
      using q True by simp
    then have "linked ku (Corpus f) (Root f) (dirsAt ?e (Corpus f) (Root f)) q" using l by blast
    moreover have "grows (dirsAt ?e (Corpus f) (Root f)) (dirsAt (AddFile ku m f) (Corpus f) (Root f))"
      unfolding a using d by (rule grows_files)
    ultimately show ?thesis using True grows_linked by blast
  qed
qed

lemma linked_parent: "linked ku c r ds q \<Longrightarrow> q \<noteq> ''/'' \<Longrightarrow> ds (filepath_Dir q) \<noteq> None"
  unfolding linked_def by auto

lemma AddFile_dom:
  assumes "wellLinked ku m"
  shows "(dirsAt (AddFile ku m f) c r q \<noteq> None)
         = (dirsAt m c r q \<noteq> None
            \<or> (c = Corpus f \<and> r = Root f \<and> q \<in> set (ancestors (containingDir f))))"
proof (cases "c = Corpus f \<and> r = Root f")
  case False
  then have "dirsAt (AddFile ku m f) c r = dirsAt m c r" by (intro AddFile_other) auto
  then show ?thesis using False by auto
next
  case True
  let ?e = "ensureDir ku m (Corpus f) (Root f) (containingDir f)"
  let ?a = "dirsAt (AddFile ku m f) (Corpus f) (Root f)"
  obtain d where d: "dirsAt ?e (Corpus f) (Root f) (containingDir f) = Some d"
    and a: "?a = (dirsAt ?e (Corpus f) (Root f))
             (containingDir f \<mapsto> d\<lparr>FileTicket := addToSet (FileTicket d) (ToString ku f)\<rparr>)"
    by (rule AddFile_dirsAt_same)
  have same: "(?a q \<noteq> None) = (dirsAt ?e (Corpus f) (Root f) q \<noteq> None)" for q
    unfolding a using d by auto
  have up: "?a q \<noteq> None \<Longrightarrow>
      dirsAt m (Corpus f) (Root f) q \<noteq> None \<or> q \<in> set (ancestors (containingDir f))"
    unfolding same using ensureDir_dom_upper by blast
  have mono: "dirsAt m (Corpus f) (Root f) q \<noteq> None \<Longrightarrow> ?a q \<noteq> None"
    unfolding same using extends_present [OF ensureDir_extends] by blast
  have wl: "wellLinked ku (AddFile ku m f)" using assms by (rule AddFile_wellLinked)
  have closed: "\<And>q. ?a q \<noteq> None \<Longrightarrow> q \<noteq> ''/'' \<Longrightarrow> ?a (filepath_Dir q) \<noteq> None"
    using wl linked_parent unfolding wellLinked_def by blast
  have "?a (containingDir f) \<noteq> None" unfolding a by simp
  from closed_ancestors [of ?a, OF closed this]
  have anc: "q \<in> set (ancestors (containingDir f)) \<Longrightarrow> ?a q \<noteq> None" by blast
  show ?thesis using True up mono anc by blast
qed

lemma AddFile_M:
  "(M (AddFile ku m f) c \<noteq> None) = (M m c \<noteq> None \<or> c = Corpus f)"
  by (cases "c = Corpus f") (simp_all add: AddFile_M_other, simp add: AddFile_unfold M_storeDir)

lemma AddFile_rootsAt:
  "(rootsAt (AddFile ku m f) c r \<noteq> None)
     = (rootsAt m c r \<noteq> None \<or> (c = Corpus f \<and> r = Root f))"
proof (cases "c = Corpus f")
  case False
  then show ?thesis by (simp add: rootsAt_def AddFile_M_other)
next
  case True
  show ?thesis
  proof (cases "r = Root f")
    case False
    then show ?thesis using True by (simp add: AddFile_rootsAt_other)
  next
    case r: True
    show ?thesis using True r by (simp add: AddFile_unfold rootsAt_storeDir)
  qed
qed

lemma AddFiles_wellLinked: "wellLinked ku (foldl (AddFile ku) NewMap fs)"
  by (induction fs rule: rev_induct) (simp_all add: wellLinked_NewMap AddFile_wellLinked)

lemma AddFiles_dom:
  "(dirsAt (foldl (AddFile ku) NewMap fs) c r q \<noteq> None)
     = (\<exists>f \<in> set fs. Corpus f = c \<and> Root f = r \<and> q \<in> set (ancestors (containingDir f)))"
proof (induction fs rule: rev_induct)
  case Nil
  show ?case by simp
next
  case (snoc f fs)
  show ?case
    using AddFile_dom [OF AddFiles_wellLinked, of ku fs f c r q] snoc
    by auto
qed

lemma AddFiles_M:
  "(M (foldl (AddFile ku) NewMap fs) c \<noteq> None) = (\<exists>f \<in> set fs. Corpus f = c)"
proof (induction fs rule: rev_induct)
  case Nil
  show ?case by (simp add: NewMap_def)
next
  case (snoc f fs)
  show ?case using AddFile_M [of ku "foldl (AddFile ku) NewMap fs" f c] snoc by auto
qed

lemma AddFiles_rootsAt:
  "(rootsAt (foldl (AddFile ku) NewMap fs) c r \<noteq> None)
     = (\<exists>f \<in> set fs. Corpus f = c \<and> Root f = r)"
proof (induction fs rule: rev_induct)
  case Nil
  show ?case by (simp add: NewMap_def rootsAt_def)
next
  case (snoc f fs)
  show ?case using AddFile_rootsAt [of ku "foldl (AddFile ku) NewMap fs" f c r] snoc by auto
qed

lemma ancestors_rooted:
  "p \<noteq> [] \<Longrightarrow> hd p = Separator \<Longrightarrow>
   last (ancestors p) = ''/'' \<and> (\<forall>q \<in> set (ancestors p). q \<noteq> [] \<and> hd q = Separator)"
proof (induction p rule: ancestors.induct)
  case (1 path)
  have sep: "Separator \<in> set path" using 1(2,3) by (cases path) auto
  show ?case
  proof (cases "path = ''/''")
    case True
    then have "ancestors path = [path]" by (subst ancestors.simps) simp
    then show ?thesis using True 1(2,3) by simp
  next
    case False
    then have "length (filepath_Dir path) < length path"
      using Dir_shorter [OF sep] by (simp add: Separator_def)
    then have ne: "filepath_Dir path \<noteq> path" by auto
    then have a: "ancestors path = path # ancestors (filepath_Dir path)"
      using False by (subst ancestors.simps) simp
    have "filepath_Dir path \<noteq> []" by (simp add: filepath_Dir_def Clean_nonempty)
    moreover have "hd (filepath_Dir path) = Separator" using 1(2,3) by (rule Dir_rooted)
    moreover have "ancestors (filepath_Dir path) \<noteq> []"
      using ancestors_self [of "filepath_Dir path"] by auto
    ultimately show ?thesis using 1(1) False ne a 1(2,3) by simp
  qed
qed

lemma Join_root_rooted:
  "filepath_Join [''/'', p] \<noteq> [] \<and> hd (filepath_Join [''/'', p]) = Separator"
  by (simp add: Clean_nonempty Clean_rooted Separator_def)

lemma containingDir_rooted: "containingDir f \<noteq> [] \<and> hd (containingDir f) = Separator"
  unfolding containingDir_def
  using Join_root_rooted [of "Path f"] Dir_rooted [of "filepath_Join [''/'', Path f]"]
  by (simp add: filepath_Dir_def Clean_nonempty)


section \<open>Concrete instances\<close>

text \<open>
  One concrete pair of renderings and a few concrete files, for the instances
  on which the theorems are run.
\<close>

definition sample_uri :: kytheuri where
  "sample_uri =
     \<lparr>ToString = (\<lambda>v. ''kythe://'' @ Corpus v @ ''?path='' @ Path v @ ''?root='' @ Root v),
      String = (\<lambda>corpus root path. ''kythe://'' @ corpus @ ''?path='' @ path @ ''?root='' @ root)\<rparr>"

definition file_ab :: VName where
  "file_ab = \<lparr>Signature = [], Corpus = ''c'', Root = ''r'', Path = ''a/b.go'', Language = []\<rparr>"

definition file_abc :: VName where
  "file_abc = \<lparr>Signature = [], Corpus = ''k'', Root = [], Path = ''/a/b/c.go'', Language = []\<rparr>"

definition file_xy :: VName where
  "file_xy = \<lparr>Signature = [], Corpus = ''c'', Root = ''r'', Path = ''/x/y.go'', Language = []\<rparr>"

definition file_d :: VName where
  "file_d = \<lparr>Signature = [], Corpus = ''d'', Root = [], Path = ''lib/z.go'', Language = []\<rparr>"

definition file_c1 :: VName where
  "file_c1 = \<lparr>Signature = [], Corpus = ''c1'', Root = [], Path = ''main.go'', Language = []\<rparr>"

definition file_c2 :: VName where
  "file_c2 = \<lparr>Signature = [], Corpus = ''c2'', Root = ''r1'', Path = ''lib/x.go'', Language = []\<rparr>"

definition kythe_schema :: schema where
  "kythe_schema = \<lparr>NodeKindFact = ''/kythe/node/kind'', FileKind = ''file''\<rparr>"

definition sample_store :: GraphStore where
  "sample_store =
     \<lparr>facts =
        [\<lparr>Source = file_ab, EdgeKind = [], FactName = ''/kythe/node/kind'', FactValue = ''file''\<rparr>,
         \<lparr>Source = file_xy, EdgeKind = [], FactName = ''/kythe/node/kind'', FactValue = ''function''\<rparr>,
         \<lparr>Source = file_d, EdgeKind = [], FactName = ''/kythe/node/kindred'', FactValue = ''file''\<rparr>],
      failure = Some ''connection reset''\<rparr>"

definition ascending :: "string set \<Rightarrow> string list" where
  "ascending S = sorted_list_of_set S"

definition descending :: "string set \<Rightarrow> string list" where
  "descending S = rev (sorted_list_of_set S)"

definition sample_net :: "string \<rightharpoonup> mux" where
  "sample_net =
     [''index:8080'' \<mapsto>
        RegisterHTTPHandlers
          (MapService ascending (\<lambda>corpus. ascending)
             (foldl (AddFile sample_uri) NewMap [file_ab, file_d]))]"


section \<open>Lookup of what is not there\<close>

text \<open>
  C4.  \<^verbatim>\<open>Dir\<close> never returns an error.  It returns the nil record with the nil
  error when the corpus is unknown, when the root is unknown under the corpus,
  and when the directory has no record under the corpus and root; so it does
  for the corpus "unknown-corpus", the empty root and the path "/" on every
  tree that does not know that corpus.  On a tree built by insertions these
  are the cases where no file was inserted with that corpus, or none with that
  corpus and root at or below the directory.
\<close>

theorem Dir_not_found:
  "snd (Dir m corpus root path) = None
   \<and> (M m corpus = None \<longrightarrow> Dir m corpus root path = (None, None))
   \<and> (rootsAt m corpus root = None \<longrightarrow> Dir m corpus root path = (None, None))
   \<and> (dirsAt m corpus root path = None \<longrightarrow> Dir m corpus root path = (None, None))
   \<and> (M m ''unknown-corpus'' = None \<longrightarrow> Dir m ''unknown-corpus'' [] ''/'' = (None, None))
   \<and> (\<not> (\<exists>f \<in> set fs. Corpus f = corpus) \<longrightarrow>
        Dir (foldl (AddFile ku) NewMap fs) corpus root path = (None, None))
   \<and> (\<not> (\<exists>f \<in> set fs. Corpus f = corpus \<and> Root f = root
                        \<and> path \<in> set (ancestors (containingDir f))) \<longrightarrow>
        Dir (foldl (AddFile ku) NewMap fs) corpus root path = (None, None))"
proof -
  have a: "snd (Dir m corpus root path) = None
   \<and> (M m corpus = None \<longrightarrow> Dir m corpus root path = (None, None))
   \<and> (rootsAt m corpus root = None \<longrightarrow> Dir m corpus root path = (None, None))
   \<and> (dirsAt m corpus root path = None \<longrightarrow> Dir m corpus root path = (None, None))
   \<and> (M m ''unknown-corpus'' = None \<longrightarrow> Dir m ''unknown-corpus'' [] ''/'' = (None, None))"
    by (auto simp: Dir_def rootsAt_def dirsAt_def split: option.splits)
  have b: "Dir (foldl (AddFile ku) NewMap fs) corpus root path = (None, None)"
    if "\<not> (\<exists>f \<in> set fs. Corpus f = corpus \<and> Root f = root
                        \<and> path \<in> set (ancestors (containingDir f)))"
  proof -
    have "dirsAt (foldl (AddFile ku) NewMap fs) corpus root path = None"
      using that AddFiles_dom [of ku fs corpus root path] by blast
    then show ?thesis by (simp add: Dir_dirsAt)
  qed
  then have c: "Dir (foldl (AddFile ku) NewMap fs) corpus root path = (None, None)"
    if "\<not> (\<exists>f \<in> set fs. Corpus f = corpus)"
    using that by blast
  show ?thesis using a b c by blast
qed

theorem Dir_not_found_witness:
  "M (AddFile sample_uri NewMap file_ab) ''unknown-corpus'' = None
   \<and> Dir (AddFile sample_uri NewMap file_ab) ''unknown-corpus'' [] ''/'' = (None, None)
   \<and> rootsAt (AddFile sample_uri NewMap file_ab) ''c'' ''other'' = None
   \<and> Dir (AddFile sample_uri NewMap file_ab) ''c'' ''other'' ''/'' = (None, None)
   \<and> dirsAt (AddFile sample_uri NewMap file_ab) ''c'' ''r'' ''/x'' = None
   \<and> Dir (AddFile sample_uri NewMap file_ab) ''c'' ''r'' ''/x'' = (None, None)
   \<and> Dir (foldl (AddFile sample_uri) NewMap [file_ab]) ''unknown-corpus'' [] ''/'' = (None, None)"
proof -
  have a: "M (AddFile sample_uri NewMap file_ab) ''unknown-corpus'' = None"
    by code_simp
  have b: "rootsAt (AddFile sample_uri NewMap file_ab) ''c'' ''other'' = None"
    by code_simp
  have c: "dirsAt (AddFile sample_uri NewMap file_ab) ''c'' ''r'' ''/x'' = None"
    by code_simp
  have d: "\<not> (\<exists>f \<in> set [file_ab]. Corpus f = ''unknown-corpus'')"
    by (simp add: file_ab_def)
  show ?thesis
    using a b c d
      Dir_not_found [of "AddFile sample_uri NewMap file_ab" "''unknown-corpus''" "[]" "''/''"
        "[file_ab]" sample_uri]
      Dir_not_found [of "AddFile sample_uri NewMap file_ab" "''c''" "''other''" "''/''"]
      Dir_not_found [of "AddFile sample_uri NewMap file_ab" "''c''" "''r''" "''/x''"]
    by simp
qed


section \<open>Inserting a file twice\<close>

text \<open>
  C3.  Inserting a file a second time changes nothing: the tree is the same,
  and so is the set of files of the containing directory.  \<^verbatim>\<open>addToSet\<close>
  adds the string to the set of elements, adding it again changes nothing, and
  a slice without duplicates stays without duplicates.
\<close>

theorem AddFile_idempotent:
  "AddFile ku (AddFile ku m f) f = AddFile ku m f
   \<and> set (filesAt (AddFile ku (AddFile ku m f) f) (Corpus f) (Root f) (containingDir f))
       = set (filesAt (AddFile ku m f) (Corpus f) (Root f) (containingDir f))
   \<and> set (addToSet strs str) = insert str (set strs)
   \<and> addToSet (addToSet strs str) str = addToSet strs str
   \<and> (distinct strs \<longrightarrow> distinct (addToSet strs str))"
proof -
  have "addToSet (addToSet strs str) str = addToSet strs str"
    by (rule addToSet_member) (simp add: set_addToSet)
  then show ?thesis
    by (simp add: AddFile_twice set_addToSet distinct_addToSet)
qed

theorem AddFile_idempotent_witness:
  "distinct [''x'', ''y''] \<and> distinct (addToSet [''x'', ''y''] ''x'')
   \<and> distinct (addToSet [''x'', ''y''] ''z'')
   \<and> AddFile sample_uri (AddFile sample_uri NewMap file_ab) file_ab = AddFile sample_uri NewMap file_ab
   \<and> filesAt (AddFile sample_uri NewMap file_ab) ''c'' ''r'' ''/a'' = [''kythe://c?path=a/b.go?root=r'']"
proof -
  have d: "distinct [''x'', ''y'']" by simp
  have f: "filesAt (AddFile sample_uri NewMap file_ab) ''c'' ''r'' ''/a'' = [''kythe://c?path=a/b.go?root=r'']"
    by code_simp
  show ?thesis
    using d f AddFile_idempotent [of sample_uri NewMap file_ab "[''x'', ''y'']" "''x''"]
      AddFile_idempotent [of sample_uri NewMap file_ab "[''x'', ''y'']" "''z''"]
    by simp
qed


section \<open>What an insertion leaves alone\<close>

text \<open>
  C10.  \<^verbatim>\<open>AddFile\<close> leaves every other corpus as it was, leaves every other
  root of the file's corpus as it was, so that every lookup under another pair
  of corpus and root gives what it gave before; and under the file's own
  corpus and root the files of every directory other than the containing
  directory are what they were.
\<close>

theorem AddFile_frame:
  "(c \<noteq> Corpus f \<longrightarrow> M (AddFile ku m f) c = M m c)
   \<and> (r \<noteq> Root f \<longrightarrow> rootsAt (AddFile ku m f) (Corpus f) r = rootsAt m (Corpus f) r)
   \<and> (c \<noteq> Corpus f \<or> r \<noteq> Root f \<longrightarrow> Dir (AddFile ku m f) c r p = Dir m c r p)
   \<and> (p \<noteq> containingDir f \<longrightarrow>
        filesAt (AddFile ku m f) (Corpus f) (Root f) p = filesAt m (Corpus f) (Root f) p)"
  by (simp add: AddFile_M_other AddFile_rootsAt_other AddFile_files_other Dir_dirsAt AddFile_other)


theorem AddFile_frame_witness:
  "''d'' \<noteq> Corpus file_xy
   \<and> M (AddFile sample_uri (AddFile sample_uri (AddFile sample_uri NewMap file_ab) file_d) file_xy) ''d''
       = M (AddFile sample_uri (AddFile sample_uri NewMap file_ab) file_d) ''d''
   \<and> Dir (AddFile sample_uri (AddFile sample_uri (AddFile sample_uri NewMap file_ab) file_d) file_xy)
         ''d'' [] ''/lib''
       = Dir (AddFile sample_uri (AddFile sample_uri NewMap file_ab) file_d) ''d'' [] ''/lib''
   \<and> ''/a'' \<noteq> containingDir file_xy
   \<and> filesAt (AddFile sample_uri (AddFile sample_uri (AddFile sample_uri NewMap file_ab) file_d) file_xy)
         ''c'' ''r'' ''/a''
       = filesAt (AddFile sample_uri (AddFile sample_uri NewMap file_ab) file_d) ''c'' ''r'' ''/a''
   \<and> filesAt (AddFile sample_uri (AddFile sample_uri NewMap file_ab) file_d) ''c'' ''r'' ''/a''
       = [''kythe://c?path=a/b.go?root=r'']"
proof -
  have c: "''d'' \<noteq> Corpus file_xy" "Corpus file_xy = ''c''" "Root file_xy = ''r''"
    by (simp_all add: file_xy_def)
  have p: "''/a'' \<noteq> containingDir file_xy" by code_simp
  have v: "filesAt (AddFile sample_uri (AddFile sample_uri NewMap file_ab) file_d) ''c'' ''r'' ''/a''
       = [''kythe://c?path=a/b.go?root=r'']"
    by code_simp
  show ?thesis
    using c p v
      AddFile_frame [of "''d''" file_xy sample_uri
        "AddFile sample_uri (AddFile sample_uri NewMap file_ab) file_d" "[]" "''/lib''"]
      AddFile_frame [of "''d''" file_xy sample_uri
        "AddFile sample_uri (AddFile sample_uri NewMap file_ab) file_d" "''r''" "''/a''"]
    by simp
qed


section \<open>Ancestors of an inserted file\<close>

lemma ancestors_abc: "ancestors ''/a/b'' = [''/a/b'', ''/a'', ''/'']"
  by code_simp

lemma containingDir_abc:
  assumes "Path f = ''/a/b/c.go''"
  shows "containingDir f = ''/a/b''"
proof -
  have "filepath_Dir (filepath_Join [''/'', ''/a/b/c.go'']) = ''/a/b''" by code_simp
  then show ?thesis using assms by (simp only: containingDir_def)
qed

text \<open>
  C2.  After any sequence of \<^verbatim>\<open>AddFile\<close> calls on a new tree, for every corpus
  and root: a directory \<open>P\<close> has a record exactly when some inserted file of that
  corpus and root has its containing directory at or below \<open>P\<close>; and when
  \<open>P\<close> has a record and is not "/", the parent of \<open>P\<close> has a record whose
  subdirectories contain the ticket of \<open>P\<close>.  In particular a file at
  /a/b/c.go gives records for "/", "/a" and "/a/b", the ticket of "/a/b" among
  the subdirectories of "/a" and the ticket of "/a" among those of "/".
\<close>

theorem ancestor_invariant:
  "(fst (Dir (foldl (AddFile ku) NewMap fs) c r P) \<noteq> None)
     = (\<exists>f \<in> set fs. Corpus f = c \<and> Root f = r \<and> P \<in> set (ancestors (containingDir f)))
   \<and> (fst (Dir (foldl (AddFile ku) NewMap fs) c r P) \<noteq> None \<and> P \<noteq> ''/'' \<longrightarrow>
        (\<exists>pd. fst (Dir (foldl (AddFile ku) NewMap fs) c r (filepath_Dir P)) = Some pd
              \<and> String ku c r P \<in> set (Subdirectory pd)))
   \<and> (f \<in> set fs \<and> Path f = ''/a/b/c.go'' \<longrightarrow>
        (\<exists>d0 d1 d2.
            Dir (foldl (AddFile ku) NewMap fs) (Corpus f) (Root f) ''/'' = (Some d0, None)
          \<and> Dir (foldl (AddFile ku) NewMap fs) (Corpus f) (Root f) ''/a'' = (Some d1, None)
          \<and> Dir (foldl (AddFile ku) NewMap fs) (Corpus f) (Root f) ''/a/b'' = (Some d2, None)
          \<and> String ku (Corpus f) (Root f) ''/a/b'' \<in> set (Subdirectory d1)
          \<and> String ku (Corpus f) (Root f) ''/a'' \<in> set (Subdirectory d0)))"
proof -
  let ?m = "foldl (AddFile ku) NewMap fs"
  have dom: "(dirsAt ?m c r P \<noteq> None)
     = (\<exists>f \<in> set fs. Corpus f = c \<and> Root f = r \<and> P \<in> set (ancestors (containingDir f)))" for c r P
    by (rule AddFiles_dom)
  have link: "dirsAt ?m c r P \<noteq> None \<Longrightarrow> P \<noteq> ''/'' \<Longrightarrow>
      \<exists>pd. dirsAt ?m c r (filepath_Dir P) = Some pd \<and> String ku c r P \<in> set (Subdirectory pd)" for c r P
    using AddFiles_wellLinked [of ku fs] unfolding wellLinked_def linked_def by blast
  have ex: "\<exists>d0 d1 d2.
            dirsAt ?m (Corpus f) (Root f) ''/'' = Some d0
          \<and> dirsAt ?m (Corpus f) (Root f) ''/a'' = Some d1
          \<and> dirsAt ?m (Corpus f) (Root f) ''/a/b'' = Some d2
          \<and> String ku (Corpus f) (Root f) ''/a/b'' \<in> set (Subdirectory d1)
          \<and> String ku (Corpus f) (Root f) ''/a'' \<in> set (Subdirectory d0)"
    if f: "f \<in> set fs" "Path f = ''/a/b/c.go''"
  proof -
    have cd: "containingDir f = ''/a/b''" using f(2) by (rule containingDir_abc)
    have ab: "dirsAt ?m (Corpus f) (Root f) ''/a/b'' \<noteq> None"
      unfolding dom using f(1) cd ancestors_abc by auto
    have d1: "filepath_Dir ''/a/b'' = ''/a''" by code_simp
    have d0: "filepath_Dir ''/a'' = ''/''" by code_simp
    from link [OF ab] obtain pd1 where pd1: "dirsAt ?m (Corpus f) (Root f) ''/a'' = Some pd1"
      "String ku (Corpus f) (Root f) ''/a/b'' \<in> set (Subdirectory pd1)"
      unfolding d1 by auto
    then have "dirsAt ?m (Corpus f) (Root f) ''/a'' \<noteq> None" by simp
    from link [OF this] obtain pd0 where pd0: "dirsAt ?m (Corpus f) (Root f) ''/'' = Some pd0"
      "String ku (Corpus f) (Root f) ''/a'' \<in> set (Subdirectory pd0)"
      unfolding d0 by auto
    show ?thesis using ab pd1 pd0 by auto
  qed
  show ?thesis
    unfolding Dir_dirsAt fst_conv using dom [of c r P] link [of c r P] ex by auto
qed


theorem ancestor_invariant_witness:
  "file_abc \<in> set [file_abc, file_d] \<and> Path file_abc = ''/a/b/c.go''
   \<and> Corpus file_abc = ''k'' \<and> Root file_abc = []
   \<and> fst (Dir (foldl (AddFile sample_uri) NewMap [file_abc, file_d]) ''k'' [] ''/a'') \<noteq> None
   \<and> ''/a'' \<noteq> ''/''
   \<and> (\<exists>pd. fst (Dir (foldl (AddFile sample_uri) NewMap [file_abc, file_d]) ''k'' [] (filepath_Dir ''/a''))
                = Some pd
            \<and> String sample_uri ''k'' [] ''/a'' \<in> set (Subdirectory pd))
   \<and> (\<exists>d0 d1 d2.
          Dir (foldl (AddFile sample_uri) NewMap [file_abc, file_d]) ''k'' [] ''/'' = (Some d0, None)
        \<and> Dir (foldl (AddFile sample_uri) NewMap [file_abc, file_d]) ''k'' [] ''/a'' = (Some d1, None)
        \<and> Dir (foldl (AddFile sample_uri) NewMap [file_abc, file_d]) ''k'' [] ''/a/b'' = (Some d2, None)
        \<and> String sample_uri ''k'' [] ''/a/b'' \<in> set (Subdirectory d1)
        \<and> String sample_uri ''k'' [] ''/a'' \<in> set (Subdirectory d0))"
proof -
  have f: "file_abc \<in> set [file_abc, file_d]" "Path file_abc = ''/a/b/c.go''"
    "Corpus file_abc = ''k''" "Root file_abc = []"
    by (simp_all add: file_abc_def)
  have e: "fst (Dir (foldl (AddFile sample_uri) NewMap [file_abc, file_d]) ''k'' [] ''/a'') \<noteq> None"
    by code_simp
  have n: "''/a'' \<noteq> ''/''" by simp
  show ?thesis
    using f e n
      ancestor_invariant [of sample_uri "[file_abc, file_d]" "''k''" "[]" "''/a''" file_abc]
    by simp
qed


section \<open>Paths are rooted at the separator\<close>

text \<open>
  C5.  \<^verbatim>\<open>AddFile\<close> roots the path of every file at "/": the joined path and
  the containing directory start with the separator.  The bare path "a/b.go"
  becomes "/a/b.go", its containing directory is "/a", the parent of "/a" is
  "/" and the parent of "/" is "/".  The ticket of the file is recorded under the
  containing directory, "/a" for the path "a/b.go".  The chain of parents of
  the containing directory ends in "/", where \<^verbatim>\<open>ensureDir\<close> stores the record
  and does not recurse; and every directory recorded by insertions into a new
  tree starts with the separator and has "/" at the top of its chain, so
  nothing above "/" has a record.
\<close>

theorem insertion_normalizes:
  "filepath_Join [''/'', p] \<noteq> [] \<and> hd (filepath_Join [''/'', p]) = CHR ''/''
   \<and> containingDir f \<noteq> [] \<and> hd (containingDir f) = CHR ''/''
   \<and> filepath_Join [''/'', ''a/b.go''] = ''/a/b.go''
   \<and> filepath_Dir ''/a/b.go'' = ''/a'' \<and> filepath_Dir ''/a'' = ''/'' \<and> filepath_Dir ''/'' = ''/''
   \<and> ToString ku f \<in> set (filesAt (AddFile ku m f) (Corpus f) (Root f) (containingDir f))
   \<and> (Path f = ''a/b.go'' \<longrightarrow>
        ToString ku f \<in> set (filesAt (AddFile ku m f) (Corpus f) (Root f) ''/a''))
   \<and> last (ancestors (containingDir f)) = ''/''
   \<and> (dirsAt m c r ''/'' = None \<longrightarrow>
        ensureDir ku m c r ''/'' = storeDir m c r ''/'' \<lparr>Subdirectory = [], FileTicket = []\<rparr>)
   \<and> (fst (Dir (foldl (AddFile ku) NewMap fs) c r P) \<noteq> None \<longrightarrow>
        P \<noteq> [] \<and> hd P = CHR ''/'' \<and> last (ancestors P) = ''/'')"
proof -
  have j: "filepath_Join [''/'', p] \<noteq> [] \<and> hd (filepath_Join [''/'', p]) = CHR ''/''"
    using Join_root_rooted [of p] by (simp add: Separator_def)
  have cd: "containingDir f \<noteq> [] \<and> hd (containingDir f) = CHR ''/''"
    using containingDir_rooted [of f] by (simp add: Separator_def)
  have ex: "filepath_Join [''/'', ''a/b.go''] = ''/a/b.go''"
    "filepath_Dir ''/a/b.go'' = ''/a''" "filepath_Dir ''/a'' = ''/''" "filepath_Dir ''/'' = ''/''"
    by code_simp+
  have t: "ToString ku f \<in> set (filesAt (AddFile ku m f) (Corpus f) (Root f) (containingDir f))"
    by (simp add: AddFile_files_same)
  have ab: "containingDir f = ''/a''" if "Path f = ''a/b.go''"
    using that ex(1,2) by (simp only: containingDir_def)
  have l: "last (ancestors (containingDir f)) = ''/''"
    using ancestors_rooted [of "containingDir f"] containingDir_rooted [of f] by blast
  have key: "P \<noteq> [] \<and> hd P = CHR ''/'' \<and> last (ancestors P) = ''/''"
    if "fst (Dir (foldl (AddFile ku) NewMap fs) c r P) \<noteq> None"
  proof -
    from that obtain g where g: "P \<in> set (ancestors (containingDir g))"
      unfolding Dir_dirsAt fst_conv AddFiles_dom by blast
    have "\<forall>q \<in> set (ancestors (containingDir g)). q \<noteq> [] \<and> hd q = Separator"
      using ancestors_rooted [of "containingDir g"] containingDir_rooted [of g] by blast
    then have "P \<noteq> [] \<and> hd P = Separator" using g by blast
    then show ?thesis using ancestors_rooted [of P] by (simp add: Separator_def)
  qed
  have ab': "ToString ku f \<in> set (filesAt (AddFile ku m f) (Corpus f) (Root f) ''/a'')"
    if "Path f = ''a/b.go''"
    using t ab [OF that] by simp
  have root: "dirsAt m c r ''/'' = None \<Longrightarrow>
      ensureDir ku m c r ''/'' = storeDir m c r ''/'' \<lparr>Subdirectory = [], FileTicket = []\<rparr>"
    by (rule ensureDir_root)
  show ?thesis
    using j cd ex t ab' l key root by blast
qed

theorem insertion_normalizes_witness:
  "Path file_ab = ''a/b.go''
   \<and> ToString sample_uri file_ab
       \<in> set (filesAt (AddFile sample_uri NewMap file_ab) (Corpus file_ab) (Root file_ab) ''/a'')
   \<and> dirsAt NewMap ''c'' ''r'' ''/'' = None
   \<and> ensureDir sample_uri NewMap ''c'' ''r'' ''/''
       = storeDir NewMap ''c'' ''r'' ''/'' \<lparr>Subdirectory = [], FileTicket = []\<rparr>
   \<and> fst (Dir (foldl (AddFile sample_uri) NewMap [file_ab]) ''c'' ''r'' ''/a'') \<noteq> None
   \<and> last (ancestors ''/a'') = ''/''
   \<and> fst (Dir (foldl (AddFile sample_uri) NewMap [file_ab]) ''c'' ''r'' ''/'')
       = Some \<lparr>Subdirectory = [''kythe://c?path=/a?root=r''], FileTicket = []\<rparr>"
proof -
  have a: "Path file_ab = ''a/b.go''" by (simp add: file_ab_def)
  have b: "dirsAt NewMap ''c'' ''r'' ''/'' = None" by simp
  have c: "fst (Dir (foldl (AddFile sample_uri) NewMap [file_ab]) ''c'' ''r'' ''/a'') \<noteq> None"
    by code_simp
  have d: "fst (Dir (foldl (AddFile sample_uri) NewMap [file_ab]) ''c'' ''r'' ''/'')
       = Some \<lparr>Subdirectory = [''kythe://c?path=/a?root=r''], FileTicket = []\<rparr>"
    by code_simp
  show ?thesis
    using a b c d
      insertion_normalizes [of "[]" file_ab sample_uri NewMap "''c''" "''r''" "[file_ab]" "''/a''"]
    by simp
qed



section \<open>Lookup takes the path as it is given\<close>

text \<open>
  C1, as stated, fails.  \<^verbatim>\<open>Dir\<close> does not normalise its path: after the
  insertion of a file with the bare path "a/b.go", the lookup of "a", which
  insertion would normalise to "/a", finds nothing, while the lookup of "/a"
  returns the record that lists the file.
\<close>

theorem Dir_bare_path_counterexample:
  "filepath_Join [''/'', ''a''] = ''/a''
   \<and> Dir (AddFile sample_uri NewMap file_ab) ''c'' ''r'' ''a'' = (None, None)
   \<and> Dir (AddFile sample_uri NewMap file_ab) ''c'' ''r'' ''/a''
       = (Some \<lparr>Subdirectory = [], FileTicket = [''kythe://c?path=a/b.go?root=r'']\<rparr>, None)
   \<and> Dir (AddFile sample_uri NewMap file_ab) ''c'' ''r'' ''a''
       \<noteq> Dir (AddFile sample_uri NewMap file_ab) ''c'' ''r'' ''/a''"
  by code_simp

text \<open>
  The form of a cleaned rooted path: the separator alone, or each component
  preceded by the separator, where a component is not empty, holds no
  separator and is neither the dot nor the double dot.
\<close>

definition realComp :: "string \<Rightarrow> bool" where
  "realComp c = (c \<noteq> [] \<and> Separator \<notin> set c \<and> c \<noteq> ''.'' \<and> c \<noteq> ''..'')"

definition render :: "string list \<Rightarrow> string" where
  "render comps = (if comps = [] then [Separator] else concat (map (\<lambda>c. Separator # c) comps))"

definition normalPath :: "string \<Rightarrow> bool" where
  "normalPath q = (\<exists>comps. list_all realComp comps \<and> q = render comps)"

lemma render_Nil: "render [] = [Separator]"
  by (simp add: render_def)

lemma render_snoc:
  "render (comps @ [c]) = (if comps = [] then [Separator] else render comps @ [Separator]) @ c"
  by (simp add: render_def)

lemma render_length: "list_all realComp comps \<Longrightarrow> (length (render comps) = 1) = (comps = [])"
proof (cases comps)
  case Nil
  then show ?thesis by (simp add: render_def)
next
  case (Cons c cs)
  assume "list_all realComp comps"
  then have "c \<noteq> []" using Cons by (simp add: realComp_def)
  then show ?thesis using Cons by (cases c) (simp_all add: render_def)
qed

lemma backtrack_stop:
  "d \<le> k \<Longrightarrow> k \<le> w \<Longrightarrow> (\<forall>i. k < i \<and> i \<le> w \<longrightarrow> \<not> IsPathSeparator (buf ! i)) \<Longrightarrow>
   k = d \<or> IsPathSeparator (buf ! k) \<Longrightarrow> backtrack d buf w = k"
proof (induction w)
  case 0
  then show ?case by (subst backtrack.simps) simp
next
  case (Suc w)
  show ?case
  proof (cases "k = Suc w")
    case True
    then show ?thesis using Suc.prems by (subst backtrack.simps) auto
  next
    case False
    then have kw: "k \<le> w" using Suc.prems(2) by simp
    have "backtrack d buf w = k"
      using Suc.prems kw by (intro Suc.IH) auto
    moreover have "d < Suc w \<and> \<not> IsPathSeparator (buf ! Suc w)"
      using Suc.prems kw by auto
    ultimately show ?thesis by (subst backtrack.simps) simp
  qed
qed

lemma backtrack_render:
  assumes "realComp c"
  shows "take (backtrack 1 (render (comps @ [c])) (length (render (comps @ [c])) - 1))
           (render (comps @ [c])) = render comps"
proof -
  have c: "c \<noteq> []" "\<forall>x \<in> set c. \<not> IsPathSeparator x"
    using assms by (auto simp: realComp_def IsPathSeparator_def)
  let ?base = "if comps = [] then [Separator] else render comps @ [Separator]"
  let ?k = "length ?base - 1"
  have buf: "render (comps @ [c]) = ?base @ c" by (rule render_snoc)
  have bl: "1 \<le> length ?base" by simp
  have k1: "(if comps = [] then 1 else length (render comps)) = (if comps = [] then 1 else ?k)"
    by simp
  have rl: "comps \<noteq> [] \<Longrightarrow> 1 \<le> length (render comps)"
    by (cases comps) (simp_all add: render_def)
  let ?k' = "if comps = [] then 1 else length (render comps)"
  have "backtrack 1 (?base @ c) (length (?base @ c) - 1) = ?k'"
  proof (rule backtrack_stop)
    show "1 \<le> ?k'" using rl by simp
    show "?k' \<le> length (?base @ c) - 1" using c(1) by (cases c) auto
    show "\<forall>i. ?k' < i \<and> i \<le> length (?base @ c) - 1 \<longrightarrow> \<not> IsPathSeparator ((?base @ c) ! i)"
    proof (intro allI impI)
      fix i assume i: "?k' < i \<and> i \<le> length (?base @ c) - 1"
      then have "length ?base \<le> i" by (auto split: if_splits)
      moreover have "i - length ?base < length c" using i c(1) by (cases c) (auto split: if_splits)
      ultimately have "(?base @ c) ! i \<in> set c"
        by (metis leD nth_append nth_mem)
      then show "\<not> IsPathSeparator ((?base @ c) ! i)" using c(2) by blast
    qed
    show "?k' = 1 \<or> IsPathSeparator ((?base @ c) ! ?k')"
      by (auto simp: nth_append IsPathSeparator_def)
  qed
  then show ?thesis unfolding buf by (auto simp: render_def)
qed


lemma normalPath_root: "normalPath [Separator]"
  unfolding normalPath_def by (rule exI [of _ "[]"]) (simp add: render_def)

lemma normalPath_rooted: "normalPath q \<Longrightarrow> q \<noteq> [] \<and> hd q = Separator"
proof -
  assume "normalPath q"
  then obtain comps where q: "q = render comps" unfolding normalPath_def by blast
  show ?thesis unfolding q by (cases comps) (simp_all add: render_def)
qed

lemma normalPath_backtrack:
  assumes n: "normalPath out" and l: "1 < length out"
  shows "normalPath (take (backtrack 1 out (length out - 1)) out)"
proof -
  obtain comps where c: "list_all realComp comps" "out = render comps"
    using n unfolding normalPath_def by blast
  have "comps \<noteq> []" using l c render_length [OF c(1)] by auto
  then obtain cs x where x: "comps = cs @ [x]" by (metis rev_exhaust)
  have "realComp x" "list_all realComp cs" using c(1) x by simp_all
  then show ?thesis
    unfolding c(2) x normalPath_def using backtrack_render [of x cs] by auto
qed

lemma normalPath_elem:
  assumes n: "normalPath out" and c: "\<not> IsPathSeparator c"
    and nd: "\<not> (c = CHR ''.'' \<and> (cs = [] \<or> IsPathSeparator (hd cs)))"
    and ndd: "\<not> (c = CHR ''.'' \<and> hd cs = CHR ''.'' \<and> (tl cs = [] \<or> IsPathSeparator (hd (tl cs))))"
  shows "normalPath ((if length out \<noteq> 1 then out @ [Separator] else out)
           @ c # takeWhile (\<lambda>x. \<not> IsPathSeparator x) cs)"
proof -
  let ?t = "takeWhile (\<lambda>x. \<not> IsPathSeparator x) cs"
  obtain comps where cm: "list_all realComp comps" "out = render comps"
    using n unfolding normalPath_def by blast
  have t0: "(?t = []) = (cs = [] \<or> IsPathSeparator (hd cs))"
    by (cases cs) auto
  have t1: "(?t = ''.'') = (cs \<noteq> [] \<and> hd cs = CHR ''.'' \<and> (tl cs = [] \<or> IsPathSeparator (hd (tl cs))))"
  proof (cases cs)
    case Nil
    then show ?thesis by simp
  next
    case (Cons a as)
    show ?thesis
    proof (cases "IsPathSeparator a")
      case True
      then show ?thesis using Cons by (auto simp: IsPathSeparator_def Separator_def)
    next
      case False
      have "(takeWhile (\<lambda>x. \<not> IsPathSeparator x) as = []) = (as = [] \<or> IsPathSeparator (hd as))"
        by (cases as) auto
      then show ?thesis using Cons False by auto
    qed
  qed
  have "set ?t \<subseteq> {x. \<not> IsPathSeparator x}" by (auto dest: set_takeWhileD)
  then have "Separator \<notin> set (c # ?t)" using c by (auto simp: IsPathSeparator_def)
  moreover have "c # ?t \<noteq> ''.''" using nd t0 by auto
  moreover have "c # ?t \<noteq> ''..''" using ndd t1 by auto
  ultimately have r: "realComp (c # ?t)" by (simp add: realComp_def)
  have "(if length out \<noteq> 1 then out @ [Separator] else out) @ c # ?t = render (comps @ [c # ?t])"
    unfolding render_snoc cm(2) using render_length [OF cm(1)] by (simp add: render_def)
  moreover have "list_all realComp (comps @ [c # ?t])" using cm(1) r by simp
  ultimately show ?thesis unfolding normalPath_def by blast
qed

lemma clean_loop_normal:
  "rooted \<Longrightarrow> dd = 1 \<Longrightarrow> normalPath out \<Longrightarrow> normalPath (clean_loop rooted rest out dd)"
proof (induction rooted rest out dd rule: clean_loop.induct)
  case (1 rooted out dotdot)
  then show ?case by simp
next
  case (2 rooted c cs out dotdot)
  note r = \<open>rooted\<close> and d = \<open>dotdot = 1\<close> and n = \<open>normalPath out\<close>
  show ?case
  proof (cases "IsPathSeparator c")
    case True
    then have "clean_loop rooted (c # cs) out dotdot = clean_loop rooted cs out dotdot"
      by (subst clean_loop.simps(2)) simp
    then show ?thesis using 2(1) [OF True r d n] by simp
  next
    case nsep: False
    show ?thesis
    proof (cases "c = CHR ''.'' \<and> (cs = [] \<or> IsPathSeparator (hd cs))")
      case True
      then have "clean_loop rooted (c # cs) out dotdot = clean_loop rooted cs out dotdot"
        using nsep by (subst clean_loop.simps(2)) simp
      then show ?thesis using 2(2) [OF nsep True r d n] by simp
    next
      case ndot: False
      show ?thesis
      proof (cases "c = CHR ''.'' \<and> hd cs = CHR ''.'' \<and> (tl cs = [] \<or> IsPathSeparator (hd (tl cs)))")
        case True
        show ?thesis
        proof (cases "dotdot < length out")
          case bt: True
          let ?o = "take (backtrack dotdot out (length out - 1)) out"
          have eq: "clean_loop rooted (c # cs) out dotdot = clean_loop rooted (tl cs) ?o dotdot"
            using nsep ndot True bt by (subst clean_loop.simps(2)) simp
          have "normalPath ?o" using normalPath_backtrack [OF n] bt d by simp
          from 2(3) [OF nsep ndot True bt r d this] show ?thesis unfolding eq .
        next
          case nbt: False
          have nr: "\<not> \<not> rooted" using r by simp
          have eq: "clean_loop rooted (c # cs) out dotdot = clean_loop rooted (tl cs) out dotdot"
            using nsep ndot True nbt nr by (subst clean_loop.simps(2)) simp
          from 2(5) [OF nsep ndot True nbt nr r d n] show ?thesis unfolding eq .
        qed
      next
        case elem: False
        let ?o = "(if rooted \<and> length out \<noteq> 1 \<or> \<not> rooted \<and> length out \<noteq> 0
            then out @ [Separator] else out) @ c # takeWhile (\<lambda>x. \<not> IsPathSeparator x) cs"
        let ?r = "dropWhile (\<lambda>x. \<not> IsPathSeparator x) cs"
        have eq: "clean_loop rooted (c # cs) out dotdot = clean_loop rooted ?r ?o dotdot"
          using nsep ndot elem by (subst clean_loop.simps(2)) (simp only: if_False)
        have "normalPath ?o" using normalPath_elem [OF n nsep ndot elem] r by simp
        from 2(6) [OF nsep ndot elem r d this] show ?thesis unfolding eq .
      qed
    qed
  qed
qed

lemma Clean_normal:
  assumes "path \<noteq> []" "hd path = Separator"
  shows "normalPath (filepath_Clean path)"
proof -
  have n: "normalPath (clean_loop True (tl path) [Separator] 1)"
    by (rule clean_loop_normal) (simp_all add: normalPath_root)
  then have "clean_loop True (tl path) [Separator] 1 \<noteq> []" using normalPath_rooted by blast
  then show ?thesis
    using assms n by (simp add: filepath_Clean_def Let_def IsPathSeparator_def)
qed


lemma clean_loop_sep: "clean_loop r (Separator # rest) out dd = clean_loop r rest out dd"
  by (subst clean_loop.simps(2)) (simp add: IsPathSeparator_def)

lemma clean_loop_comp:
  assumes c: "realComp c" and rest: "rest = [] \<or> hd rest = Separator"
  shows "clean_loop True (c @ rest) out 1
         = clean_loop True rest ((if length out \<noteq> 1 then out @ [Separator] else out) @ c) 1"
proof -
  obtain x xs where x: "c = x # xs" using c by (cases c) (auto simp: realComp_def)
  have ns: "\<not> IsPathSeparator x" "\<forall>y \<in> set xs. \<not> IsPathSeparator y"
    using c x by (auto simp: realComp_def IsPathSeparator_def)
  have tw: "takeWhile (\<lambda>x. \<not> IsPathSeparator x) (xs @ rest) = xs"
    using ns(2) rest by (cases rest) (auto simp: takeWhile_append2 IsPathSeparator_def)
  have dw: "dropWhile (\<lambda>x. \<not> IsPathSeparator x) (xs @ rest) = rest"
    using ns(2) rest by (cases rest) (auto simp: dropWhile_append2 IsPathSeparator_def)
  have nd: "\<not> (x = CHR ''.'' \<and> (xs @ rest = [] \<or> IsPathSeparator (hd (xs @ rest))))"
  proof
    assume a: "x = CHR ''.'' \<and> (xs @ rest = [] \<or> IsPathSeparator (hd (xs @ rest)))"
    have "xs \<noteq> []" using c x a by (auto simp: realComp_def)
    then show False using a ns(2) by (cases xs) auto
  qed
  have ndd: "\<not> (x = CHR ''.'' \<and> hd (xs @ rest) = CHR ''.''
                \<and> (tl (xs @ rest) = [] \<or> IsPathSeparator (hd (tl (xs @ rest)))))"
  proof
    assume a: "x = CHR ''.'' \<and> hd (xs @ rest) = CHR ''.''
                \<and> (tl (xs @ rest) = [] \<or> IsPathSeparator (hd (tl (xs @ rest))))"
    have "xs \<noteq> []" using c x a by (auto simp: realComp_def)
    then obtain y ys where y: "xs = y # ys" by (cases xs) auto
    then have "y = CHR ''.''" using a by simp
    then have "ys \<noteq> []" using c x y a by (auto simp: realComp_def)
    then show False using a y ns(2) by (cases ys) auto
  qed
  have "clean_loop True (x # (xs @ rest)) out 1
        = clean_loop True (dropWhile (\<lambda>x. \<not> IsPathSeparator x) (xs @ rest))
            ((if length out \<noteq> 1 then out @ [Separator] else out)
              @ x # takeWhile (\<lambda>x. \<not> IsPathSeparator x) (xs @ rest)) 1"
    using ns(1) nd ndd by (subst clean_loop.simps(2)) (simp only: if_False simp_thms)
  then show ?thesis unfolding x tw dw by simp
qed

lemma clean_loop_render:
  "list_all realComp done \<Longrightarrow> list_all realComp todo \<Longrightarrow>
   clean_loop True (concat (map (\<lambda>c. Separator # c) todo)) (render done) 1 = render (done @ todo)"
proof (induction todo arbitrary: "done")
  case Nil
  then show ?case by simp
next
  case (Cons t ts)
  let ?rest = "concat (map (\<lambda>c. Separator # c) ts)"
  have rest: "?rest = [] \<or> hd ?rest = Separator" by (cases ts) auto
  have t: "realComp t" "list_all realComp ts" using Cons.prems(2) by simp_all
  have "clean_loop True (concat (map (\<lambda>c. Separator # c) (t # ts))) (render done) 1
        = clean_loop True (t @ ?rest) (render done) 1"
    by (simp add: clean_loop_sep)
  also have "\<dots> = clean_loop True ?rest
        ((if length (render done) \<noteq> 1 then render done @ [Separator] else render done) @ t) 1"
    using t(1) rest by (rule clean_loop_comp)
  also have "(if length (render done) \<noteq> 1 then render done @ [Separator] else render done) @ t
        = render (done @ [t])"
    unfolding render_snoc using render_length [OF Cons.prems(1)] by (simp add: render_def)
  also have "clean_loop True ?rest (render (done @ [t])) 1 = render ((done @ [t]) @ ts)"
    using Cons.prems(1) t by (intro Cons.IH) simp_all
  finally show ?case by simp
qed

lemma Join_normal:
  assumes "normalPath q"
  shows "filepath_Join [''/'', q] = q"
proof -
  obtain comps where c: "list_all realComp comps" "q = render comps"
    using assms unfolding normalPath_def by blast
  have l: "clean_loop True (Separator # q) [Separator] 1 = q"
  proof (cases "comps = []")
    case True
    then show ?thesis unfolding c(2) by (simp add: render_def clean_loop_sep)
  next
    case False
    then have "q = concat (map (\<lambda>c. Separator # c) comps)" unfolding c(2) by (simp add: render_def)
    then show ?thesis
      using clean_loop_render [of "[]" comps] c by (simp add: clean_loop_sep render_Nil)
  qed
  have "q \<noteq> []" using normalPath_rooted [OF assms] by simp
  then show ?thesis
    using l by (simp add: filepath_Clean_def IsPathSeparator_def Separator_def Let_def)
qed

lemma Dir_normal:
  assumes "path \<noteq> []" "hd path = Separator"
  shows "normalPath (filepath_Dir path)"
proof -
  have "Separator \<in> set path" using assms by (cases path) auto
  then obtain k where k: "lastSeparatorEnd path (length path) = Suc k"
    using lastSeparatorEnd_zero [of "length path" path] by (cases "lastSeparatorEnd path (length path)") auto
  have "take (Suc k) path \<noteq> []" "hd (take (Suc k) path) = Separator"
    using assms by (cases path; simp)+
  from Clean_normal [OF this] show ?thesis using k by (simp add: filepath_Dir_def)
qed

lemma containingDir_normal: "normalPath (containingDir f)"
  unfolding containingDir_def using Join_root_rooted [of "Path f"] by (intro Dir_normal) simp_all

lemma ancestors_normal: "normalPath p \<Longrightarrow> q \<in> set (ancestors p) \<Longrightarrow> normalPath q"
proof (induction p rule: ancestors.induct)
  case (1 path)
  show ?case
  proof (cases "path = ''/'' \<or> filepath_Dir path = path")
    case True
    then have "ancestors path = [path]" by (subst ancestors.simps) simp
    then show ?thesis using 1(2,3) by simp
  next
    case False
    then have a: "ancestors path = path # ancestors (filepath_Dir path)"
      by (subst ancestors.simps) simp
    have "normalPath (filepath_Dir path)"
      using normalPath_rooted [OF 1(2)] by (intro Dir_normal) simp_all
    then show ?thesis using 1(1) [OF False] 1(2,3) a by auto
  qed
qed

lemma AddFiles_key_normal:
  assumes "dirsAt (foldl (AddFile ku) NewMap fs) c r P \<noteq> None"
  shows "filepath_Join [''/'', P] = P"
proof -
  from assms obtain g where "P \<in> set (ancestors (containingDir g))"
    unfolding AddFiles_dom by blast
  then have "normalPath P" using ancestors_normal [OF containingDir_normal] by blast
  then show ?thesis by (rule Join_normal)
qed

lemma Dir_storeDir:
  "Dir (storeDir m c r p d) c r p' = (if p' = p then (Some d, None) else Dir m c r p')"
  by (simp add: Dir_dirsAt dirsAt_storeDir)

text \<open>
  C1, amended.  \<^verbatim>\<open>Dir\<close> uses its path argument as the key, unchanged: on
  every tree, a record stored under a path is what the lookup of that very
  string returns, and storing it changes the lookup of no other string.
  Insertion stores the record of the containing directory under the
  normalised path, which normalising again leaves as it is, so the lookup of
  that path after an insertion returns a record that lists the file.  On a
  tree built by insertions the lookup of any path that is not in normalised
  form, that is any \<open>P\<close> that \<^verbatim>\<open>filepath.Join("/", P)\<close> changes, returns
  not-found; so does, in particular, every path that does not start with "/".
\<close>

theorem Dir_exact_key:
  "Dir (storeDir m corpus root path dir) corpus root path = (Some dir, None)
   \<and> (path' \<noteq> path \<longrightarrow>
        Dir (storeDir m corpus root path dir) corpus root path' = Dir m corpus root path')
   \<and> (\<exists>d. Dir (AddFile ku m f) (Corpus f) (Root f) (containingDir f) = (Some d, None)
        \<and> ToString ku f \<in> set (FileTicket d))
   \<and> filepath_Join [''/'', containingDir f] = containingDir f
   \<and> (filepath_Join [''/'', P] \<noteq> P \<longrightarrow>
        Dir (foldl (AddFile ku) NewMap fs) c r P = (None, None))
   \<and> (P = [] \<or> hd P \<noteq> CHR ''/'' \<longrightarrow>
        Dir (foldl (AddFile ku) NewMap fs) c r P = (None, None))"
proof -
  have s: "Dir (storeDir m corpus root path dir) corpus root path = (Some dir, None)"
    "path' \<noteq> path \<Longrightarrow>
        Dir (storeDir m corpus root path dir) corpus root path' = Dir m corpus root path'"
    by (simp_all add: Dir_storeDir)
  have "ToString ku f \<in> set (filesAt (AddFile ku m f) (Corpus f) (Root f) (containingDir f))"
    by (simp add: AddFile_files_same)
  then have a: "\<exists>d. Dir (AddFile ku m f) (Corpus f) (Root f) (containingDir f) = (Some d, None)
        \<and> ToString ku f \<in> set (FileTicket d)"
    unfolding filesAt_dirsAt Dir_dirsAt
    by (cases "dirsAt (AddFile ku m f) (Corpus f) (Root f) (containingDir f)") simp_all
  have n: "filepath_Join [''/'', containingDir f] = containingDir f"
    using containingDir_normal by (rule Join_normal)
  have b: "Dir (foldl (AddFile ku) NewMap fs) c r P = (None, None)"
    if "filepath_Join [''/'', P] \<noteq> P"
  proof (rule ccontr)
    assume "Dir (foldl (AddFile ku) NewMap fs) c r P \<noteq> (None, None)"
    then have "dirsAt (foldl (AddFile ku) NewMap fs) c r P \<noteq> None"
      unfolding Dir_dirsAt by simp
    then have "filepath_Join [''/'', P] = P" by (rule AddFiles_key_normal)
    then show False using that by simp
  qed
  have c: "Dir (foldl (AddFile ku) NewMap fs) c r P = (None, None)" if "P = [] \<or> hd P \<noteq> CHR ''/''"
  proof -
    have "filepath_Join [''/'', P] \<noteq> P"
      using that Join_root_rooted [of P] by (auto simp: Separator_def)
    then show ?thesis by (rule b)
  qed
  show ?thesis using s a n b c by blast
qed

theorem Dir_exact_key_witness:
  "''/a/'' \<noteq> ''/a''
   \<and> Dir (storeDir NewMap ''c'' ''r'' ''/a'' \<lparr>Subdirectory = [], FileTicket = [''t'']\<rparr>) ''c'' ''r'' ''/a/''
       = Dir NewMap ''c'' ''r'' ''/a/''
   \<and> filepath_Join [''/'', ''/a/''] = ''/a''
   \<and> Dir (foldl (AddFile sample_uri) NewMap [file_ab, file_xy]) ''c'' ''r'' ''/a/'' = (None, None)
   \<and> filepath_Join [''/'', ''//a''] = ''/a''
   \<and> Dir (foldl (AddFile sample_uri) NewMap [file_ab, file_xy]) ''c'' ''r'' ''//a'' = (None, None)
   \<and> filepath_Join [''/'', ''/a/.''] = ''/a''
   \<and> Dir (foldl (AddFile sample_uri) NewMap [file_ab, file_xy]) ''c'' ''r'' ''/a/.'' = (None, None)
   \<and> hd ''a'' \<noteq> CHR ''/''
   \<and> Dir (foldl (AddFile sample_uri) NewMap [file_ab, file_xy]) ''c'' ''r'' ''a'' = (None, None)
   \<and> (\<exists>d. Dir (AddFile sample_uri NewMap file_ab) (Corpus file_ab) (Root file_ab)
             (containingDir file_ab) = (Some d, None)
          \<and> ToString sample_uri file_ab \<in> set (FileTicket d))
   \<and> containingDir file_ab = ''/a''"
proof -
  have a: "hd ''a'' \<noteq> CHR ''/''" "''/a/'' \<noteq> ''/a''" by simp_all
  have b: "containingDir file_ab = ''/a''" by code_simp
  have j: "filepath_Join [''/'', ''/a/''] = ''/a''" "filepath_Join [''/'', ''//a''] = ''/a''"
    "filepath_Join [''/'', ''/a/.''] = ''/a''"
    by code_simp+
  have k: "filepath_Join [''/'', ''/a/''] \<noteq> ''/a/''" "filepath_Join [''/'', ''//a''] \<noteq> ''//a''"
    "filepath_Join [''/'', ''/a/.''] \<noteq> ''/a/.''"
    unfolding j by simp_all
  show ?thesis
    using a b j k
      Dir_exact_key [of NewMap "''c''" "''r''" "''/a''" "\<lparr>Subdirectory = [], FileTicket = [''t'']\<rparr>"
        "''/a/''" sample_uri file_ab "''/a/''" "[file_ab, file_xy]" "''c''" "''r''"]
      Dir_exact_key [of NewMap "''c''" "''r''" "''/a''" "\<lparr>Subdirectory = [], FileTicket = [''t'']\<rparr>"
        "''/a/''" sample_uri file_ab "''//a''" "[file_ab, file_xy]" "''c''" "''r''"]
      Dir_exact_key [of NewMap "''c''" "''r''" "''/a''" "\<lparr>Subdirectory = [], FileTicket = [''t'']\<rparr>"
        "''/a/''" sample_uri file_ab "''/a/.''" "[file_ab, file_xy]" "''c''" "''r''"]
      Dir_exact_key [of NewMap "''c''" "''r''" "''/a''" "\<lparr>Subdirectory = [], FileTicket = [''t'']\<rparr>"
        "''/a/''" sample_uri file_ab "''a''" "[file_ab, file_xy]" "''c''" "''r''"]
    by simp
qed


section \<open>Termination of the creation of ancestors\<close>

text \<open>
  \<^verbatim>\<open>ensureDir\<close> with a bound on the depth of the recursion: the same
  function, counting the calls down from \<open>n\<close> and giving \<open>None\<close> when the
  count is used up.
\<close>

primrec ensureDir_fuel :: "nat \<Rightarrow> kytheuri \<Rightarrow> Map \<Rightarrow> string \<Rightarrow> string \<Rightarrow> string \<Rightarrow> Map option" where
  "ensureDir_fuel 0 ku m corpus root path = None"
| "ensureDir_fuel (Suc n) ku m corpus root path =
     (let m1 = ensureCorpusRoot m corpus root in
      case dirsAt m1 corpus root path of
        Some dir \<Rightarrow> Some m1
      | None \<Rightarrow>
          (let m2 = storeDir m1 corpus root path \<lparr>Subdirectory = [], FileTicket = []\<rparr> in
           if path \<noteq> ''/'' then
             (case ensureDir_fuel n ku m2 corpus root (filepath_Dir path) of
                None \<Rightarrow> None
              | Some m3 \<Rightarrow>
                  (let parent = the (dirsAt m3 corpus root (filepath_Dir path))
                   in Some (storeDir m3 corpus root (filepath_Dir path)
                        (parent\<lparr>Subdirectory :=
                           addToSet (Subdirectory parent) (String ku corpus root path)\<rparr>))))
           else Some m2))"

lemma ensureDir_fuel_enough:
  "\<forall>n. (case dirsAt m c r p of None \<Rightarrow> rank p + 1 | Some d \<Rightarrow> 0) < n \<longrightarrow>
       ensureDir_fuel n ku m c r p = Some (ensureDir ku m c r p)"
proof (induction m p rule: ensureDir_cases [where c = c and r = r])
  case (hit m p d)
  show ?case
  proof (intro allI impI)
    fix n assume "(case dirsAt m c r p of None \<Rightarrow> rank p + 1 | Some d \<Rightarrow> 0) < n"
    then obtain k where "n = Suc k" by (cases n) auto
    then show "ensureDir_fuel n ku m c r p = Some (ensureDir ku m c r p)"
      using hit by (simp add: ensureDir_hit ensureCorpusRoot_id)
  qed
next
  case (root m)
  show ?case
  proof (intro allI impI)
    fix n assume "(case dirsAt m c r ''/'' of None \<Rightarrow> rank ''/'' + 1 | Some d \<Rightarrow> 0) < n"
    then obtain k where "n = Suc k" by (cases n) auto
    then show "ensureDir_fuel n ku m c r ''/'' = Some (ensureDir ku m c r ''/'')"
      using root by (simp add: ensureDir_root)
  qed
next
  case (step m p)
  let ?m2 = "storeDir m c r p \<lparr>Subdirectory = [], FileTicket = []\<rparr>"
  show ?case
  proof (intro allI impI)
    fix n assume "(case dirsAt m c r p of None \<Rightarrow> rank p + 1 | Some d \<Rightarrow> 0) < n"
    then have "rank p + 1 < n" using step(1) by simp
    then obtain k where k: "n = Suc k" "rank p < k" by (cases n) auto
    have "(case dirsAt ?m2 c r (filepath_Dir p) of None \<Rightarrow> rank (filepath_Dir p) + 1 | Some d \<Rightarrow> 0) < k"
    proof (cases "filepath_Dir p = p")
      case True
      then show ?thesis using k(2) by (simp add: dirsAt_storeDir_same)
    next
      case False
      have "rank (filepath_Dir p) < rank p"
        using step(2) False by (intro rank_Dir) (simp_all add: Separator_def)
      then show ?thesis using k(2) by (simp split: option.splits)
    qed
    then have "ensureDir_fuel k ku ?m2 c r (filepath_Dir p)
                 = Some (ensureDir ku ?m2 c r (filepath_Dir p))"
      using step(3) by blast
    then show "ensureDir_fuel n ku m c r p = Some (ensureDir ku m c r p)"
      using step(1,2) k(1) by (simp add: ensureDir_step linkParent_def Let_def)
  qed
qed

lemma rank_le: "rank p \<le> length p + 1"
  by (simp add: rank_def)

lemma ancestors_rank: "q \<in> set (ancestors p) \<Longrightarrow> rank q \<le> rank p"
proof (induction p rule: ancestors.induct)
  case (1 path)
  show ?case
  proof (cases "path = ''/'' \<or> filepath_Dir path = path")
    case True
    then have "ancestors path = [path]" by (subst ancestors.simps) simp
    then show ?thesis using 1(2) by simp
  next
    case False
    then have a: "ancestors path = path # ancestors (filepath_Dir path)"
      by (subst ancestors.simps) simp
    have "rank (filepath_Dir path) < rank path"
      using False by (intro rank_Dir) (simp_all add: Separator_def)
    then show ?thesis using 1(1) [OF False] 1(2) a by auto
  qed
qed

lemma distinct_ancestors: "distinct (ancestors p)"
proof (induction p rule: ancestors.induct)
  case (1 path)
  show ?case
  proof (cases "path = ''/'' \<or> filepath_Dir path = path")
    case True
    then have "ancestors path = [path]" by (subst ancestors.simps) simp
    then show ?thesis by simp
  next
    case False
    then have a: "ancestors path = path # ancestors (filepath_Dir path)"
      by (subst ancestors.simps) simp
    have "rank (filepath_Dir path) < rank path"
      using False by (intro rank_Dir) (simp_all add: Separator_def)
    then have "path \<notin> set (ancestors (filepath_Dir path))"
      using ancestors_rank [of path "filepath_Dir path"] by auto
    then show ?thesis using 1 [OF False] a by simp
  qed
qed

text \<open>
  C8.  \<^verbatim>\<open>ensureDir\<close> returns for every tree, corpus, root and path, within
  a depth of recursion of the length of the path plus three.  On a rooted path
  other than "/" each step goes to a strictly shorter rooted path; the
  containing directory that \<^verbatim>\<open>AddFile\<close> passes is rooted, its chain of
  parents ends in "/", and no chain of parents repeats a path.  So
  \<^verbatim>\<open>ensureDir\<close> returns on the path that \<^verbatim>\<open>AddFile\<close> gives it, and
  \<^verbatim>\<open>AddFile\<close>, which then only stores one record, is total.  (On a path
  with no separator, which \<^verbatim>\<open>AddFile\<close> never passes, the parent is the
  single dot, whose parent is itself; the recursion ends there because the
  record of a path is stored before its parent is visited.)
\<close>

theorem ensureDir_terminates:
  "ensureDir_fuel (length path + 3) ku m corpus root path = Some (ensureDir ku m corpus root path)
   \<and> (path \<noteq> [] \<and> hd path = CHR ''/'' \<and> path \<noteq> ''/'' \<longrightarrow>
        length (filepath_Dir path) < length path
        \<and> filepath_Dir path \<noteq> [] \<and> hd (filepath_Dir path) = CHR ''/'')
   \<and> containingDir f \<noteq> [] \<and> hd (containingDir f) = CHR ''/''
   \<and> last (ancestors (containingDir f)) = ''/''
   \<and> distinct (ancestors path)
   \<and> ensureDir_fuel (length (containingDir f) + 3) ku m (Corpus f) (Root f) (containingDir f)
       = Some (ensureDir ku m (Corpus f) (Root f) (containingDir f))"
proof -
  have fuel: "ensureDir_fuel (length p + 3) ku m c r p = Some (ensureDir ku m c r p)" for c r p
  proof -
    have "(case dirsAt m c r p of None \<Rightarrow> rank p + 1 | Some d \<Rightarrow> 0) < length p + 3"
      using rank_le [of p] by (simp split: option.splits)
    then show ?thesis using ensureDir_fuel_enough by blast
  qed
  have short: "length (filepath_Dir path) < length path
        \<and> filepath_Dir path \<noteq> [] \<and> hd (filepath_Dir path) = CHR ''/''"
    if "path \<noteq> []" "hd path = CHR ''/''" "path \<noteq> ''/''"
  proof -
    have "Separator \<in> set path" using that(1,2) by (cases path) (auto simp: Separator_def)
    then have "length (filepath_Dir path) < length path"
      using that(3) by (intro Dir_shorter) (simp_all add: Separator_def)
    moreover have "hd (filepath_Dir path) = CHR ''/''"
      using Dir_rooted [of path] that(1,2) by (simp add: Separator_def)
    moreover have "filepath_Dir path \<noteq> []" by (simp add: filepath_Dir_def Clean_nonempty)
    ultimately show ?thesis by blast
  qed
  have cd: "containingDir f \<noteq> [] \<and> hd (containingDir f) = CHR ''/''"
    using containingDir_rooted [of f] by (simp add: Separator_def)
  have l: "last (ancestors (containingDir f)) = ''/''"
    using ancestors_rooted [of "containingDir f"] containingDir_rooted [of f] by blast
  show ?thesis
    using fuel short cd l distinct_ancestors by blast
qed


theorem ensureDir_terminates_witness:
  "''/a/b'' \<noteq> [] \<and> hd ''/a/b'' = CHR ''/'' \<and> ''/a/b'' \<noteq> ''/''
   \<and> length (filepath_Dir ''/a/b'') < length ''/a/b''
   \<and> filepath_Dir ''/a/b'' \<noteq> [] \<and> hd (filepath_Dir ''/a/b'') = CHR ''/''
   \<and> ensureDir_fuel (length ''/a/b'' + 3) sample_uri NewMap ''c'' ''r'' ''/a/b''
       = Some (ensureDir sample_uri NewMap ''c'' ''r'' ''/a/b'')
   \<and> distinct (ancestors ''/a/b'')
   \<and> ancestors ''/a/b'' = [''/a/b'', ''/a'', ''/'']"
proof -
  have a: "''/a/b'' \<noteq> []" "hd ''/a/b'' = CHR ''/''" "''/a/b'' \<noteq> ''/''" by simp_all
  show ?thesis
    using a ancestors_abc
      ensureDir_terminates [of "''/a/b''" sample_uri NewMap "''c''" "''r''" file_ab]
    by blast
qed


section \<open>The corpora and their roots\<close>

lemma foldl_append_map: "foldl (\<lambda>acc x. acc @ [g x]) a xs = a @ map g xs"
  by (induction xs arbitrary: a) auto

lemma CorporaRoots_map:
  "fst (CorporaRoots corpusOrder rootOrder m)
     = map (\<lambda>corpus. (corpus, rootOrder corpus (dom (rootsAt m corpus)))) (corpusOrder (dom (M m)))"
proof -
  have "foldl (\<lambda>roots root. roots @ [root]) [] ks = ks" for ks :: "string list"
    using foldl_append_map [of "\<lambda>x. x" "[]" ks] by simp
  then show ?thesis
    by (simp add: CorporaRoots_def foldl_append_map)
qed

lemma AddFiles_dom_M: "dom (M (foldl (AddFile ku) NewMap fs)) = set (map Corpus fs)"
  using AddFiles_M [of ku fs] by (auto simp: dom_def)

lemma AddFiles_dom_rootsAt:
  "dom (rootsAt (foldl (AddFile ku) NewMap fs) c) = set (map Root (filter (\<lambda>f. Corpus f = c) fs))"
  using AddFiles_rootsAt [of ku fs c] by (auto simp: dom_def)

lemma CorporaRoots_sets:
  assumes co: "\<forall>S. finite S \<longrightarrow> set (corpusOrder S) = S \<and> distinct (corpusOrder S)"
    and ro: "\<forall>c S. finite S \<longrightarrow> set (rootOrder c S) = S \<and> distinct (rootOrder c S)"
  shows "set (map (\<lambda>(corpus, roots). (corpus, set roots))
              (fst (CorporaRoots corpusOrder rootOrder (foldl (AddFile ku) NewMap fs))))
        = (\<lambda>c. (c, set (map Root (filter (\<lambda>f. Corpus f = c) fs)))) ` set (map Corpus fs)"
    and "distinct (map fst (fst (CorporaRoots corpusOrder rootOrder (foldl (AddFile ku) NewMap fs))))"
    and "\<forall>(corpus, roots) \<in> set (fst (CorporaRoots corpusOrder rootOrder (foldl (AddFile ku) NewMap fs))).
          distinct roots"
proof -
  let ?m = "foldl (AddFile ku) NewMap fs"
  have k: "set (corpusOrder S) = S" "distinct (corpusOrder S)" if "finite S" for S
    using co that by blast+
  have kr: "set (rootOrder c S) = S" "distinct (rootOrder c S)" if "finite S" for c S
    using ro that by blast+
  have fm: "finite (dom (M ?m))" unfolding AddFiles_dom_M by simp
  have fr: "finite (dom (rootsAt ?m c))" for c unfolding AddFiles_dom_rootsAt by simp
  have s1: "set (corpusOrder (dom (M ?m))) = set (map Corpus fs)"
    using k(1) [OF fm] by (simp only: AddFiles_dom_M)
  have s2: "set (rootOrder c (dom (rootsAt ?m c))) = set (map Root (filter (\<lambda>f. Corpus f = c) fs))" for c
    using kr(1) [OF fr, of c c] by (simp only: AddFiles_dom_rootsAt)
  have "set (map (\<lambda>(corpus, roots). (corpus, set roots)) (fst (CorporaRoots corpusOrder rootOrder ?m)))
      = (\<lambda>c. (c, set (rootOrder c (dom (rootsAt ?m c))))) ` set (corpusOrder (dom (M ?m)))"
    unfolding CorporaRoots_map by (simp add: image_image o_def)
  then show "set (map (\<lambda>(corpus, roots). (corpus, set roots)) (fst (CorporaRoots corpusOrder rootOrder ?m)))
        = (\<lambda>c. (c, set (map Root (filter (\<lambda>f. Corpus f = c) fs)))) ` set (map Corpus fs)"
    by (simp only: s1 s2)
  show "distinct (map fst (fst (CorporaRoots corpusOrder rootOrder ?m)))"
    unfolding CorporaRoots_map using k(2) [OF fm] by (simp add: o_def)
  show "\<forall>(corpus, roots) \<in> set (fst (CorporaRoots corpusOrder rootOrder ?m)). distinct roots"
    unfolding CorporaRoots_map using kr(2) [OF fr] by auto
qed

lemma ascending_visits: "\<forall>S. finite S \<longrightarrow> set (ascending S) = S \<and> distinct (ascending S)"
  by (simp add: ascending_def)

lemma descending_visits: "\<forall>S. finite S \<longrightarrow> set (descending S) = S \<and> distinct (descending S)"
  by (simp add: descending_def)

text \<open>
  C6.  Whatever the orders in which the keys of the maps are visited, in the
  outer loop and in each inner loop, \<^verbatim>\<open>CorporaRoots\<close> returns a nil error,
  and the empty list on a new tree.  After any sequence of insertions into a
  new tree its result, read as a set of corpora each with its set of roots, is
  exactly the corpora of the inserted files, each with the roots of the files
  inserted under it; no corpus and no root is listed twice.
\<close>

theorem CorporaRoots_exact:
  assumes keys: "\<forall>S. finite S \<longrightarrow> set (keys S) = S \<and> distinct (keys S)"
    and rootKeys: "\<forall>c S. finite S \<longrightarrow> set (rootKeys c S) = S \<and> distinct (rootKeys c S)"
  shows "snd (CorporaRoots keys rootKeys m) = None
    \<and> CorporaRoots keys rootKeys NewMap = ([], None)
    \<and> set (map (\<lambda>(corpus, roots). (corpus, set roots))
              (fst (CorporaRoots keys rootKeys (foldl (AddFile ku) NewMap fs))))
        = (\<lambda>c. (c, set (map Root (filter (\<lambda>f. Corpus f = c) fs)))) ` set (map Corpus fs)
    \<and> distinct (map fst (fst (CorporaRoots keys rootKeys (foldl (AddFile ku) NewMap fs))))
    \<and> (\<forall>(corpus, roots) \<in> set (fst (CorporaRoots keys rootKeys (foldl (AddFile ku) NewMap fs))).
          distinct roots)"
proof -
  have e: "keys {} = []" using keys by (metis finite.emptyI set_empty)
  have a: "snd (CorporaRoots keys rootKeys m) = None" by (simp add: CorporaRoots_def)
  have b: "CorporaRoots keys rootKeys NewMap = ([], None)"
    by (simp add: CorporaRoots_def NewMap_def e)
  show ?thesis
    using a b CorporaRoots_sets [OF keys rootKeys, of ku fs] by blast
qed

theorem CorporaRoots_exact_witness:
  "snd (CorporaRoots ascending (\<lambda>corpus. descending)
          (foldl (AddFile sample_uri) NewMap [file_c1, file_c2])) = None
   \<and> CorporaRoots ascending (\<lambda>corpus. descending) NewMap = ([], None)
   \<and> set (map (\<lambda>(corpus, roots). (corpus, set roots))
            (fst (CorporaRoots ascending (\<lambda>corpus. descending)
                    (foldl (AddFile sample_uri) NewMap [file_c1, file_c2]))))
       = {(''c1'', {[]}), (''c2'', {''r1''})}"
proof -
  have k: "\<forall>S. finite S \<longrightarrow> set (ascending S) = S \<and> distinct (ascending S)"
    by (rule ascending_visits)
  have r: "\<forall>c S. finite S \<longrightarrow> set ((\<lambda>corpus. descending) c S) = S \<and> distinct ((\<lambda>corpus. descending) c S)"
    using descending_visits by simp
  have v: "(\<lambda>c. (c, set (map Root (filter (\<lambda>f. Corpus f = c) [file_c1, file_c2]))))
             ` set (map Corpus [file_c1, file_c2])
           = {(''c1'', {[]}), (''c2'', {''r1''})}"
    by (simp add: file_c1_def file_c2_def)
  show ?thesis
    using v
      CorporaRoots_exact [OF k r, of "foldl (AddFile sample_uri) NewMap [file_c1, file_c2]"
        sample_uri "[file_c1, file_c2]"]
    by simp
qed


section \<open>Population\<close>

text \<open>The test of the callback, named for the proofs.\<close>

definition isFileFact :: "schema \<Rightarrow> Entry \<Rightarrow> bool" where
  "isFileFact sc entry = (FactName entry = NodeKindFact sc \<and> FactValue entry = FileKind sc)"

lemma scan_facts_callback:
  "scan_facts (Populate_callback ku sc) es (m, total')
     = ((foldl (AddFile ku) m (map Source (filter (isFileFact sc) es)),
         total' + int (length (filter (isFileFact sc) es))), None)"
  by (induction es arbitrary: m total') (auto simp: Populate_callback_def isFileFact_def)

lemma HasPrefix_self: "HasPrefix s s"
  by (simp add: HasPrefix_def)

lemma filter_file_prefix:
  "filter (\<lambda>entry. HasPrefix (FactName entry) (NodeKindFact sc) \<and> isFileFact sc entry) es
     = filter (isFileFact sc) es"
  by (induction es) (auto simp: isFileFact_def HasPrefix_self)

text \<open>
  C7.  \<^verbatim>\<open>Populate\<close> returns an error exactly when the scan of the store
  fails, and the error is the wrapped error of the scan.  In either case the
  tree it leaves is the tree after \<^verbatim>\<open>AddFile\<close> of the sources of exactly
  those scanned facts whose name is the node-kind fact and whose value is the
  file kind, in the order of the scan.  \<^verbatim>\<open>AddFile\<close> has no error result.
\<close>

theorem Populate_result:
  "(snd (Populate ku sc m gs) \<noteq> None) = (failure gs \<noteq> None)
   \<and> snd (Populate ku sc m gs)
       = map_option (\<lambda>err. ''failed to Scan GraphStore for directory structure: '' @ err) (failure gs)
   \<and> fst (Populate ku sc m gs)
       = foldl (AddFile ku) m
           (map Source
              (filter (\<lambda>entry. FactName entry = NodeKindFact sc \<and> FactValue entry = FileKind sc)
                 (facts gs)))"
proof -
  have "(\<lambda>entry. FactName entry = NodeKindFact sc \<and> FactValue entry = FileKind sc) = isFileFact sc"
    by (simp add: isFileFact_def fun_eq_iff)
  then show ?thesis
    by (cases "failure gs")
       (simp_all add: Populate_def Scan_def scan_facts_callback filter_file_prefix)
qed

theorem Populate_result_witness:
  "Populate sample_uri kythe_schema NewMap sample_store
     = (AddFile sample_uri NewMap file_ab,
        Some ''failed to Scan GraphStore for directory structure: connection reset'')
   \<and> Populate sample_uri kythe_schema NewMap (sample_store\<lparr>failure := None\<rparr>)
     = (AddFile sample_uri NewMap file_ab, None)"
  using Populate_result [of sample_uri kythe_schema NewMap sample_store]
    Populate_result [of sample_uri kythe_schema NewMap "sample_store\<lparr>failure := None\<rparr>"]
  by (simp add: prod_eq_iff sample_store_def kythe_schema_def)


section \<open>The remote client against a server of the tree\<close>

text \<open>
  An order of visiting: it lists every key of a finite set once.
\<close>

definition visitsOnce :: "(string set \<Rightarrow> string list) \<Rightarrow> bool" where
  "visitsOnce order = (\<forall>S. finite S \<longrightarrow> set (order S) = S \<and> distinct (order S))"

text \<open>
  C9.  When the address of the client is that of a server whose handlers are
  registered on the tree \<open>m\<close>, the client's \<^verbatim>\<open>Dir\<close> returns what the tree's
  \<^verbatim>\<open>Dir\<close> returns, with the zero record in place of nil when the directory
  is not found, and the client's \<^verbatim>\<open>CorporaRoots\<close> returns the list that the
  server's call produced.  A direct call of \<^verbatim>\<open>CorporaRoots\<close> on the tree
  visits the maps in orders of its own, so the two lists need not be equal:
  for a tree built by any sequence of insertions, whatever the orders of the
  server's call and of the direct call, both return a nil error and the same
  corpora with the same roots, as sets, neither listing a corpus or a root
  twice.  The client keeps no state, so this holds for every call and
  whatever the tree has become.  When there is no server at the address, both
  methods return an error.
\<close>

theorem WebClient_forwards:
  "(net addr = Some (RegisterHTTPHandlers (MapService corpusOrder rootOrder m)) \<longrightarrow>
      Service_Dir (WebClient net addr) corpus root path
        = (Some (case fst (Dir m corpus root path) of
                   None \<Rightarrow> \<lparr>Subdirectory = [], FileTicket = []\<rparr>
                 | Some dir \<Rightarrow> dir),
           None)
      \<and> Service_CorporaRoots (WebClient net addr)
          = Service_CorporaRoots (MapService corpusOrder rootOrder m))
   \<and> (visitsOnce corpusOrder \<and> (\<forall>c. visitsOnce (rootOrder c))
       \<and> visitsOnce corpusOrder' \<and> (\<forall>c. visitsOnce (rootOrder' c))
       \<and> net addr = Some (RegisterHTTPHandlers
            (MapService corpusOrder rootOrder (foldl (AddFile ku) NewMap fs))) \<longrightarrow>
        snd (Service_CorporaRoots (WebClient net addr)) = None
        \<and> snd (CorporaRoots corpusOrder' rootOrder' (foldl (AddFile ku) NewMap fs)) = None
        \<and> set (map (\<lambda>(corpus, roots). (corpus, set roots))
                 (fst (Service_CorporaRoots (WebClient net addr))))
            = set (map (\<lambda>(corpus, roots). (corpus, set roots))
                 (fst (CorporaRoots corpusOrder' rootOrder' (foldl (AddFile ku) NewMap fs))))
        \<and> distinct (map fst (fst (Service_CorporaRoots (WebClient net addr))))
        \<and> distinct (map fst (fst (CorporaRoots corpusOrder' rootOrder' (foldl (AddFile ku) NewMap fs))))
        \<and> (\<forall>(corpus, roots) \<in> set (fst (Service_CorporaRoots (WebClient net addr))). distinct roots)
        \<and> (\<forall>(corpus, roots)
              \<in> set (fst (CorporaRoots corpusOrder' rootOrder' (foldl (AddFile ku) NewMap fs))).
              distinct roots))
   \<and> (net addr = None \<longrightarrow>
        snd (Service_Dir (WebClient net addr) corpus root path) \<noteq> None
        \<and> snd (Service_CorporaRoots (WebClient net addr)) \<noteq> None)"
proof -
  have fwd: "Service_CorporaRoots (WebClient net addr) = CorporaRoots co ro t"
    if "net addr = Some (RegisterHTTPHandlers (MapService co ro t))" for co ro t
  proof -
    have "CorporaRoots co ro t = (fst (CorporaRoots co ro t), None)"
      by (simp add: CorporaRoots_def)
    then show ?thesis
      using that
      by (simp add: WebClient_def webClient_CorporaRoots_def web_Call_def RegisterHTTPHandlers_def
          MapService_def CorporaRoots_def)
  qed
  have p1: "Service_Dir (WebClient net addr) corpus root path
        = (Some (case fst (Dir m corpus root path) of
                   None \<Rightarrow> \<lparr>Subdirectory = [], FileTicket = []\<rparr>
                 | Some dir \<Rightarrow> dir),
           None)
      \<and> Service_CorporaRoots (WebClient net addr)
          = Service_CorporaRoots (MapService corpusOrder rootOrder m)"
    if n: "net addr = Some (RegisterHTTPHandlers (MapService corpusOrder rootOrder m))"
  proof
    show "Service_Dir (WebClient net addr) corpus root path
        = (Some (case fst (Dir m corpus root path) of
                   None \<Rightarrow> \<lparr>Subdirectory = [], FileTicket = []\<rparr>
                 | Some dir \<Rightarrow> dir),
           None)"
      using n
      by (simp add: WebClient_def webClient_Dir_def web_Call_def RegisterHTTPHandlers_def
          MapService_def ReadJSONBody_def Dir_dirsAt split: option.splits)
    show "Service_CorporaRoots (WebClient net addr)
          = Service_CorporaRoots (MapService corpusOrder rootOrder m)"
      using fwd [OF n] by (simp add: MapService_def)
  qed
  let ?t = "foldl (AddFile ku) NewMap fs"
  have p2: "snd (Service_CorporaRoots (WebClient net addr)) = None
        \<and> snd (CorporaRoots corpusOrder' rootOrder' ?t) = None
        \<and> set (map (\<lambda>(corpus, roots). (corpus, set roots))
                 (fst (Service_CorporaRoots (WebClient net addr))))
            = set (map (\<lambda>(corpus, roots). (corpus, set roots))
                 (fst (CorporaRoots corpusOrder' rootOrder' ?t)))
        \<and> distinct (map fst (fst (Service_CorporaRoots (WebClient net addr))))
        \<and> distinct (map fst (fst (CorporaRoots corpusOrder' rootOrder' ?t)))
        \<and> (\<forall>(corpus, roots) \<in> set (fst (Service_CorporaRoots (WebClient net addr))). distinct roots)
        \<and> (\<forall>(corpus, roots) \<in> set (fst (CorporaRoots corpusOrder' rootOrder' ?t)). distinct roots)"
    if v: "visitsOnce corpusOrder" "\<forall>c. visitsOnce (rootOrder c)"
      "visitsOnce corpusOrder'" "\<forall>c. visitsOnce (rootOrder' c)"
      and n: "net addr = Some (RegisterHTTPHandlers (MapService corpusOrder rootOrder ?t))"
  proof -
    have co: "\<forall>S. finite S \<longrightarrow> set (corpusOrder S) = S \<and> distinct (corpusOrder S)"
      and ro: "\<forall>c S. finite S \<longrightarrow> set (rootOrder c S) = S \<and> distinct (rootOrder c S)"
      and co': "\<forall>S. finite S \<longrightarrow> set (corpusOrder' S) = S \<and> distinct (corpusOrder' S)"
      and ro': "\<forall>c S. finite S \<longrightarrow> set (rootOrder' c S) = S \<and> distinct (rootOrder' c S)"
      using v unfolding visitsOnce_def by blast+
    note server = CorporaRoots_sets [OF co ro, of ku fs]
    note direct = CorporaRoots_sets [OF co' ro', of ku fs]
    have e: "snd (CorporaRoots x y z) = None" for x y z by (simp add: CorporaRoots_def)
    show ?thesis
      unfolding fwd [OF n] using server direct e by simp
  qed
  have p3: "snd (Service_Dir (WebClient net addr) corpus root path) \<noteq> None
        \<and> snd (Service_CorporaRoots (WebClient net addr)) \<noteq> None"
    if n: "net addr = None"
    using n by (simp add: WebClient_def webClient_Dir_def webClient_CorporaRoots_def web_Call_def)
  show ?thesis using p1 p2 p3 by blast
qed

theorem WebClient_forwards_witness:
  "sample_net ''index:8080''
     = Some (RegisterHTTPHandlers
         (MapService ascending (\<lambda>corpus. ascending)
            (foldl (AddFile sample_uri) NewMap [file_ab, file_d])))
   \<and> Service_Dir (WebClient sample_net ''index:8080'') ''c'' ''r'' ''/a''
       = (Some \<lparr>Subdirectory = [], FileTicket = [''kythe://c?path=a/b.go?root=r'']\<rparr>, None)
   \<and> Dir (foldl (AddFile sample_uri) NewMap [file_ab, file_d]) ''c'' ''r'' ''/a''
       = (Some \<lparr>Subdirectory = [], FileTicket = [''kythe://c?path=a/b.go?root=r'']\<rparr>, None)
   \<and> Service_Dir (WebClient sample_net ''index:8080'') ''c'' ''r'' ''/nowhere''
       = (Some \<lparr>Subdirectory = [], FileTicket = []\<rparr>, None)
   \<and> Dir (foldl (AddFile sample_uri) NewMap [file_ab, file_d]) ''c'' ''r'' ''/nowhere'' = (None, None)
   \<and> visitsOnce ascending \<and> visitsOnce descending
   \<and> snd (Service_CorporaRoots (WebClient sample_net ''index:8080'')) = None
   \<and> set (map (\<lambda>(corpus, roots). (corpus, set roots))
            (fst (Service_CorporaRoots (WebClient sample_net ''index:8080''))))
       = set (map (\<lambda>(corpus, roots). (corpus, set roots))
            (fst (CorporaRoots descending (\<lambda>corpus. descending)
                    (foldl (AddFile sample_uri) NewMap [file_ab, file_d]))))
   \<and> sample_net ''elsewhere:1'' = None
   \<and> snd (Service_Dir (WebClient sample_net ''elsewhere:1'') ''c'' ''r'' ''/a'') \<noteq> None"
proof -
  have n: "sample_net ''index:8080''
     = Some (RegisterHTTPHandlers
         (MapService ascending (\<lambda>corpus. ascending)
            (foldl (AddFile sample_uri) NewMap [file_ab, file_d])))"
    "sample_net ''elsewhere:1'' = None"
    by (simp_all add: sample_net_def)
  have v: "visitsOnce ascending" "visitsOnce descending"
    "\<forall>c. visitsOnce ((\<lambda>corpus. ascending) c)" "\<forall>c. visitsOnce ((\<lambda>corpus. descending) c)"
    using ascending_visits descending_visits by (simp_all add: visitsOnce_def)
  have a: "Dir (foldl (AddFile sample_uri) NewMap [file_ab, file_d]) ''c'' ''r'' ''/a''
       = (Some \<lparr>Subdirectory = [], FileTicket = [''kythe://c?path=a/b.go?root=r'']\<rparr>, None)"
    by code_simp
  have b: "Dir (foldl (AddFile sample_uri) NewMap [file_ab, file_d]) ''c'' ''r'' ''/nowhere'' = (None, None)"
    by code_simp
  show ?thesis
    using n v a b
      WebClient_forwards [of sample_net "''index:8080''" ascending "\<lambda>corpus. ascending"
        "foldl (AddFile sample_uri) NewMap [file_ab, file_d]" "''c''" "''r''" "''/a''"
        descending "\<lambda>corpus. descending" sample_uri "[file_ab, file_d]"]
      WebClient_forwards [of sample_net "''index:8080''" ascending "\<lambda>corpus. ascending"
        "foldl (AddFile sample_uri) NewMap [file_ab, file_d]" "''c''" "''r''" "''/nowhere''"
        descending "\<lambda>corpus. descending" sample_uri "[file_ab, file_d]"]
      WebClient_forwards [of sample_net "''elsewhere:1''" ascending "\<lambda>corpus. ascending"
        "foldl (AddFile sample_uri) NewMap [file_ab, file_d]" "''c''" "''r''" "''/a''"
        descending "\<lambda>corpus. descending" sample_uri "[file_ab, file_d]"]
    by simp
qed

end
